theory Spec2Isabelle
  imports Main "HOL-Library.List_Lexorder"
begin

section \<open>Text: Python strings as lists of code points\<close>

text \<open>
  A Python \<open>str\<close> is a sequence of Unicode code points. The cell texts hold accented
  letters, so a character is modelled by its code point (a natural number) and not by
  an 8-bit \<open>char\<close>. ASCII literals of the source are written with \<open>ascii\<close>.
\<close>

type_synonym ustring = "nat list"

definition ascii :: "string \<Rightarrow> ustring" where
  "ascii s = map of_char s"

text \<open>
  The character class of the first \<open>re.sub\<close> of \<open>parse\<close>, without its negation and
  without the space: a-z, A-Z, the five accented vowels in both cases, and n with tilde
  in both cases.
\<close>

definition spanish_letter :: "nat \<Rightarrow> bool" where
  "spanish_letter c \<longleftrightarrow>
     (97 \<le> c \<and> c \<le> 122) \<or> (65 \<le> c \<and> c \<le> 90) \<or>
     c \<in> set [225, 233, 237, 243, 250, 193, 201, 205, 211, 218, 241, 209]"

text \<open>\<open>re.sub(r'[^a-zA-Z... ]', ' ', s)\<close>: every character outside the class becomes a space.\<close>

definition sub_non_spanish :: "ustring \<Rightarrow> ustring" where
  "sub_non_spanish s = map (\<lambda>c. if spanish_letter c \<or> c = 32 then c else 32) s"

text \<open>\<open>re.sub(r' +', ' ', s)\<close>: every maximal run of spaces becomes one space.\<close>

fun sub_spaces :: "ustring \<Rightarrow> ustring" where
  "sub_spaces (a # b # s) =
     (if a = 32 \<and> b = 32 then sub_spaces (b # s) else a # sub_spaces (b # s))"
| "sub_spaces s = s"

text \<open>
  \<open>str.strip()\<close> without argument removes leading and trailing whitespace, which for a
  Python \<open>str\<close> is the set of code points below.
\<close>

definition isspace :: "nat \<Rightarrow> bool" where
  "isspace c \<longleftrightarrow>
     (9 \<le> c \<and> c \<le> 13) \<or> (28 \<le> c \<and> c \<le> 32) \<or> c = 133 \<or> c = 160 \<or> c = 5760 \<or>
     (8192 \<le> c \<and> c \<le> 8202) \<or> c = 8232 \<or> c = 8233 \<or> c = 8239 \<or> c = 8287 \<or> c = 12288"

definition strip :: "ustring \<Rightarrow> ustring" where
  "strip s = rev (dropWhile isspace (rev (dropWhile isspace s)))"

text \<open>\<open>s.split(sep)\<close> with a one-character separator: never the empty list.\<close>

fun split :: "nat \<Rightarrow> ustring \<Rightarrow> ustring list" where
  "split sep [] = [[]]"
| "split sep (c # s) =
     (if c = sep then [] # split sep s
      else (case split sep s of w # ws \<Rightarrow> (c # w) # ws | [] \<Rightarrow> [[c]]))"

text \<open>\<open>s.replace(' ', '_')\<close>.\<close>

definition replace_space :: "ustring \<Rightarrow> ustring" where
  "replace_space s = map (\<lambda>c. if c = 32 then 95 else c) s"

text \<open>
  \<open>str.lower()\<close>, character by character, on the code points below U+0100: the ASCII
  capitals and the Latin-1 capitals (U+00C0 to U+00DE without the multiplication sign)
  move by 32, everything else stays. Above U+00FF the model leaves the code point as it
  is; \<open>parse\<close> calls \<open>lower\<close> on tokens of a cleaned cell only, which hold nothing but
  the letters of \<open>spanish_letter\<close> (lemma \<open>tokens_spanish\<close>).
\<close>

definition lower_cp :: "nat \<Rightarrow> nat" where
  "lower_cp c =
     (if (65 \<le> c \<and> c \<le> 90) \<or> (192 \<le> c \<and> c \<le> 222 \<and> c \<noteq> 215) then c + 32 else c)"

definition lower :: "ustring \<Rightarrow> ustring" where
  "lower s = map lower_cp s"

text \<open>The two substitutions and the strip of \<open>parse\<close>: the cleaned cell text.\<close>

definition clean :: "ustring \<Rightarrow> ustring" where
  "clean cell_text = strip (sub_spaces (sub_non_spanish cell_text))"

text \<open>
  The loop over \<open>list_words\<close>: a word is added to \<open>set_words\<close> and to the global
  \<open>all_words\<close> when it is its own lowercase form and is not in \<open>all_words\<close> yet.
\<close>

fun keep_words :: "ustring list \<Rightarrow> ustring set \<times> ustring set \<Rightarrow> ustring set \<times> ustring set" where
  "keep_words [] (set_words, all_words) = (set_words, all_words)"
| "keep_words (word # list_words) (set_words, all_words) =
     (if word = lower word \<and> word \<notin> all_words
      then keep_words list_words (insert word set_words, insert word all_words)
      else keep_words list_words (set_words, all_words))"


section \<open>The parsed document\<close>

text \<open>
  The HTML library is outside the repository. \<open>parse\<close> uses five of its operations:
  \<open>find\<close>, \<open>find_next\<close>, \<open>find_next_sibling\<close>, \<open>sourceline\<close> and \<open>text\<close>. The
  document is modelled as the list of its tags in document order; a tag is referred to
  by its position in that list. A tag carries its name, its text, the line of the source
  it starts on, and the position of its parent tag (\<open>None\<close> at top level).
\<close>

record tag =
  tag_name :: string
  tag_text :: ustring
  sourceline :: nat
  tag_parent :: "nat option"

type_synonym soup = "tag list"

fun first_from :: "(tag \<Rightarrow> bool) \<Rightarrow> tag list \<Rightarrow> nat \<Rightarrow> nat option" where
  "first_from P [] k = None"
| "first_from P (t # ts) k = (if P t then Some k else first_from P ts (Suc k))"

text \<open>\<open>soup.find(name)\<close>: the first tag of that name in the document.\<close>

definition soup_find :: "soup \<Rightarrow> string \<Rightarrow> nat option" where
  "soup_find soup name = first_from (\<lambda>t. tag_name t = name) soup 0"

text \<open>\<open>el.find_next(name)\<close>: the first tag of that name after \<open>el\<close> in document order.\<close>

definition find_next :: "soup \<Rightarrow> nat \<Rightarrow> string \<Rightarrow> nat option" where
  "find_next soup el name =
     first_from (\<lambda>t. tag_name t = name) (drop (Suc el) soup) (Suc el)"

text \<open>
  \<open>el.find_next_sibling(name)\<close>: the first tag of that name after \<open>el\<close> that has the
  parent of \<open>el\<close>.
\<close>

definition find_next_sibling :: "soup \<Rightarrow> nat \<Rightarrow> string \<Rightarrow> nat option" where
  "find_next_sibling soup el name =
     first_from (\<lambda>t. tag_name t = name \<and> tag_parent t = tag_parent (soup ! el))
       (drop (Suc el) soup) (Suc el)"

text \<open>
  The guard of the two inner loops, \<open>bound is None or el.sourceline < bound.sourceline\<close>.
\<close>

definition before :: "soup \<Rightarrow> nat \<Rightarrow> nat option \<Rightarrow> bool" where
  "before soup el bound =
     (case bound of None \<Rightarrow> True
      | Some b \<Rightarrow> sourceline (soup ! el) < sourceline (soup ! b))"

section \<open>Output files and exceptions\<close>

text \<open>
  A file object: its name, whether \<open>close\<close> has been called on it, and the strings
  written to it, in order. Opening and writing are assumed to succeed.
\<close>

record sink =
  sink_name :: ustring
  sink_closed :: bool
  sink_written :: "ustring list"

definition file_open :: "ustring \<Rightarrow> sink" where
  "file_open name = \<lparr>sink_name = name, sink_closed = False, sink_written = []\<rparr>"

definition file_write :: "sink \<Rightarrow> ustring \<Rightarrow> sink" where
  "file_write f s = f\<lparr>sink_written := sink_written f @ [s]\<rparr>"

definition file_close :: "sink \<Rightarrow> sink" where
  "file_close f = f\<lparr>sink_closed := True\<rparr>"

datatype error = NetworkError | AttributeError | IndexError | KeyError

section \<open>The walk of \<open>parse\<close>\<close>

text \<open>
  The globals of the module are \<open>all_words\<close> and \<open>words_by_level\<close>; the state of a
  run holds, besides them, the lines printed so far and the file objects of the calls
  of \<open>parse\<close> that have ended. Inside \<open>parse\<close> the state is extended by the locals
  \<open>outputs\<close>, \<open>counts\<close> and \<open>words_in_page_by_level\<close>.
\<close>

record state =
  all_words :: "ustring set"
  words_by_level :: "ustring \<rightharpoonup> ustring set"
  console :: "ustring list"
  files :: "sink list"

record pstate = state +
  outputs :: "sink list"
  counts :: "nat list"
  words_in_page_by_level :: "ustring set list"

text \<open>The header line and the line written for a word: its third field is the literal \<open>word\<close>.\<close>

definition header :: ustring where
  "header = [34] @ ascii ''Section'' @ [34, 44, 34] @ ascii ''Subsection'' @ [34, 44, 34]
     @ ascii ''Word'' @ [34, 10]"

definition row_line :: "ustring \<Rightarrow> ustring \<Rightarrow> ustring" where
  "row_line section subsection =
     [34] @ section @ [34, 44, 34] @ subsection @ [34, 44, 34] @ ascii ''word'' @ [34, 10]"

text \<open>
  \<open>for word in set_words: outputs[i].write(...)\<close>. The body does not mention \<open>word\<close>, so
  it writes the same line \<open>len(set_words)\<close> times; \<open>outputs[i]\<close> raises IndexError when
  \<open>levels\<close> had no more than \<open>i\<close> entries.
\<close>

fun write_rows :: "sink list \<Rightarrow> nat \<Rightarrow> ustring list \<Rightarrow> error + sink list" where
  "write_rows outs i [] = Inr outs"
| "write_rows outs i (l # ls) =
     (if i < length outs then write_rows (outs[i := file_write (outs ! i) l]) i ls
      else Inl IndexError)"

text \<open>The body of \<open>for i in range(2)\<close> from the cell's text on.\<close>

definition process_cell :: "ustring \<Rightarrow> ustring \<Rightarrow> nat \<Rightarrow> ustring \<Rightarrow> pstate \<Rightarrow> error option \<times> pstate" where
  "process_cell section subsection i raw p =
     (let cell_text = clean raw in
      if cell_text = [] then (None, p)
      else
        let list_words = split 32 cell_text;
            (set_words, aw) = keep_words list_words ({}, all_words p);
            p1 = p\<lparr>all_words := aw\<rparr>
        in case write_rows (outputs p1) i (replicate (card set_words) (row_line section subsection)) of
             Inl e \<Rightarrow> (Some e, p1)
           | Inr outs \<Rightarrow>
               (None, p1\<lparr>outputs := outs,
                         counts := (counts p1)[i := counts p1 ! i + card set_words],
                         words_in_page_by_level :=
                           (words_in_page_by_level p1)[i := words_in_page_by_level p1 ! i \<union> set_words]\<rparr>))"

text \<open>
  \<open>for i in range(2)\<close>: \<open>cell = cell.find_next('td')\<close>, and \<open>cell.text\<close> raises
  AttributeError when there is no such tag.
\<close>

fun cells_loop :: "soup \<Rightarrow> ustring \<Rightarrow> ustring \<Rightarrow> nat list \<Rightarrow> nat \<Rightarrow> pstate \<Rightarrow> error option \<times> pstate" where
  "cells_loop soup section subsection [] cell p = (None, p)"
| "cells_loop soup section subsection (i # is) cell p =
     (case find_next soup cell ''td'' of
        None \<Rightarrow> (Some AttributeError, p)
      | Some c \<Rightarrow>
          (case process_cell section subsection i (tag_text (soup ! c)) p of
             (Some e, p') \<Rightarrow> (Some e, p')
           | (None, p') \<Rightarrow> cells_loop soup section subsection is c p'))"

lemma first_from_bounds:
  "first_from P ts k = Some j \<Longrightarrow> k \<le> j \<and> j < k + length ts"
proof (induction ts arbitrary: k)
  case Nil
  then show ?case by simp
next
  case (Cons t ts)
  show ?case
  proof (cases "P t")
    case True
    with Cons.prems show ?thesis by simp
  next
    case False
    with Cons.prems have "first_from P ts (Suc k) = Some j" by simp
    from Cons.IH [OF this] show ?thesis by simp
  qed
qed

lemma find_next_bounds:
  "find_next soup el name = Some j \<Longrightarrow> el < j \<and> j < length soup"
  unfolding find_next_def by (drule first_from_bounds) auto

lemma find_next_sibling_bounds:
  "find_next_sibling soup el name = Some j \<Longrightarrow> el < j \<and> j < length soup"
  unfolding find_next_sibling_def by (drule first_from_bounds) auto

text \<open>The distance of a loop's current tag from the end of the document.\<close>

definition togo :: "soup \<Rightarrow> nat option \<Rightarrow> nat" where
  "togo soup el = (case el of None \<Rightarrow> 0 | Some e \<Rightarrow> Suc (length soup - e))"

lemma togo_sibling:
  "togo soup (find_next_sibling soup el name) < togo soup (Some el)"
  by (cases "find_next_sibling soup el name")
     (auto simp: togo_def dest: find_next_sibling_bounds)

text \<open>\<open>while row is not None and (h3 is None or row.sourceline < h3.sourceline)\<close>.\<close>

function rows_loop :: "soup \<Rightarrow> ustring \<Rightarrow> ustring \<Rightarrow> nat option \<Rightarrow> nat option \<Rightarrow> pstate \<Rightarrow> error option \<times> pstate" where
  "rows_loop soup section subsection h3 row p =
     (case row of
        None \<Rightarrow> (None, p)
      | Some r \<Rightarrow>
          if before soup r h3 then
            (case cells_loop soup section subsection [0..<2] r p of
               (Some e, p') \<Rightarrow> (Some e, p')
             | (None, p') \<Rightarrow>
                 rows_loop soup section subsection h3 (find_next_sibling soup r ''tr'') p')
          else (None, p))"
  by pat_completeness auto
termination
  by (relation "measure (\<lambda>(soup, section, subsection, h3, row, p). togo soup row)")
     (auto simp: togo_sibling)

text \<open>\<open>while h3 is not None and (h2 is None or h3.sourceline < h2.sourceline)\<close>.\<close>

function subsections_loop :: "soup \<Rightarrow> ustring \<Rightarrow> nat option \<Rightarrow> nat option \<Rightarrow> pstate \<Rightarrow> error option \<times> pstate" where
  "subsections_loop soup section h3 h2 p =
     (case h3 of
        None \<Rightarrow> (None, p)
      | Some h \<Rightarrow>
          if before soup h h2 then
            (let subsection = strip (tag_text (soup ! h));
                 row = find_next soup h ''tr'';
                 h3' = find_next_sibling soup h ''h3''
             in case rows_loop soup section subsection h3' row p of
                  (Some e, p') \<Rightarrow> (Some e, p')
                | (None, p') \<Rightarrow> subsections_loop soup section h3' h2 p')
          else (None, p))"
  by pat_completeness auto
termination
  by (relation "measure (\<lambda>(soup, section, h3, h2, p). togo soup h3)")
     (auto simp: togo_sibling)

text \<open>\<open>while h2 is not None\<close>.\<close>

function sections_loop :: "soup \<Rightarrow> nat option \<Rightarrow> pstate \<Rightarrow> error option \<times> pstate" where
  "sections_loop soup h2 p =
     (case h2 of
        None \<Rightarrow> (None, p)
      | Some s \<Rightarrow>
          (let section = strip (tag_text (soup ! s));
               h3 = find_next soup s ''h3'';
               h2' = find_next_sibling soup s ''h2''
           in case subsections_loop soup section h3 h2' p of
                (Some e, p') \<Rightarrow> (Some e, p')
              | (None, p') \<Rightarrow> sections_loop soup h2' p'))"
  by pat_completeness auto
termination
  by (relation "measure (\<lambda>(soup, h2, p). togo soup h2)")
     (auto simp: togo_sibling)


declare rows_loop.simps [simp del] subsections_loop.simps [simp del] sections_loop.simps [simp del]

section \<open>\<open>parse\<close>\<close>

text \<open>Decimal digits of a number, as an f-string prints an \<open>int\<close>.\<close>

function str_nat :: "nat \<Rightarrow> ustring" where
  "str_nat n = (if n < 10 then [48 + n] else str_nat (n div 10) @ [48 + n mod 10])"
  by pat_completeness auto
termination
  by (relation "measure id") auto

declare str_nat.simps [simp del]

definition str_int :: "int \<Rightarrow> ustring" where
  "str_int k = (if k < 0 then 45 # str_nat (nat (- k)) else str_nat (nat k))"

text \<open>The format \<open>{n: >4d}\<close>: right-aligned in four columns, filled with spaces.\<close>

definition format_4d :: "nat \<Rightarrow> ustring" where
  "format_4d n = replicate (4 - length (str_nat n)) 32 @ str_nat n"

definition print :: "ustring \<Rightarrow> 'a state_scheme \<Rightarrow> 'a state_scheme" where
  "print line st = st\<lparr>console := console st @ [line]\<rparr>"

text \<open>
  Leaving \<open>parse\<close>, by \<open>return\<close> or by an exception: the global \<open>all_words\<close> is as the
  loops left it, and the file objects of \<open>outputs\<close>, on which \<open>parse\<close> calls no \<open>close\<close>,
  are recorded as they are.
\<close>

definition leave :: "pstate \<Rightarrow> state" where
  "leave p = \<lparr>all_words = all_words p, words_by_level = words_by_level p,
     console = console p, files = files p @ outputs p\<rparr>"

text \<open>
  \<open>parse(url, page_number, levels)\<close>. The request and the HTML parser are the parameter
  \<open>fetch\<close>, which gives the parsed document of a URL, or nothing when the request fails.
\<close>

definition parse :: "(string \<Rightarrow> soup option) \<Rightarrow> string \<Rightarrow> int \<Rightarrow> ustring list \<Rightarrow> state \<Rightarrow> (error + ustring set list) \<times> state" where
  "parse fetch url page_number levels st =
     (case fetch url of
        None \<Rightarrow> (Inl NetworkError, st)
      | Some soup \<Rightarrow>
          (case soup_find soup ''h1'' of
             None \<Rightarrow> (Inl AttributeError, st)
           | Some h1 \<Rightarrow>
               let title = hd (split 46 (strip (tag_text (soup ! h1))));
                   title_underbar = replace_space title;
                   opened = map (\<lambda>level. file_open (level @ [95] @ str_int page_number @ [95]
                                    @ title_underbar @ ascii ''.csv'')) levels;
                   p0 = \<lparr>all_words = all_words st, words_by_level = words_by_level st,
                         console = console st, files = files st,
                         outputs = map (\<lambda>output. file_write output header) opened,
                         counts = [0, 0],
                         words_in_page_by_level = [{}, {}]\<rparr>;
                   (raised, p) = sections_loop soup (soup_find soup ''h2'') p0
               in case raised of
                    Some e \<Rightarrow> (Inl e, leave p)
                  | None \<Rightarrow>
                      let p1 = print (ascii ''Section '' @ str_int page_number @ ascii '': '' @ title) p
                      in (case levels of
                            [] \<Rightarrow> (Inl IndexError, leave p1)
                          | l0 # ls \<Rightarrow>
                              let p2 = print (ascii ''Level '' @ l0 @ ascii '': ''
                                         @ format_4d (counts p1 ! 0) @ ascii '' words'') p1
                              in (case ls of
                                    [] \<Rightarrow> (Inl IndexError, leave p2)
                                  | l1 # _ \<Rightarrow>
                                      let p3 = print (ascii ''Level '' @ l1 @ ascii '': ''
                                                 @ format_4d (counts p2 ! 1) @ ascii '' words'') p2
                                      in (Inr (words_in_page_by_level p3), leave p3)))))"

section \<open>The run\<close>

definition all_levels :: "ustring list" where
  "all_levels = map ascii [''A1'', ''A2'', ''B1'', ''B2'', ''C1'', ''C2'']"

text \<open>The module's globals after their initialisation; nothing is printed or opened yet.\<close>

definition init_state :: state where
  "init_state = \<lparr>all_words = {},
     words_by_level = fold (\<lambda>level m. m(level \<mapsto> {})) all_levels Map.empty,
     console = [], files = []\<rparr>"

type_synonym doc = "int \<times> ustring list \<times> string"

definition docs :: "doc list" where
  "docs =
    [(8, [ascii ''A1'', ascii ''A2''], ''https://cvc.cervantes.es/ensenanza/biblioteca_ele/plan_curricular/niveles/08_nociones_generales_inventario_a1-a2.htm''),
     (8, [ascii ''B1'', ascii ''B2''], ''https://cvc.cervantes.es/ensenanza/biblioteca_ele/plan_curricular/niveles/08_nociones_generales_inventario_b1-b2.htm''),
     (8, [ascii ''C1'', ascii ''C2''], ''https://cvc.cervantes.es/ensenanza/biblioteca_ele/plan_curricular/niveles/08_nociones_generales_inventario_c1-c2.htm''),
     (9, [ascii ''A1'', ascii ''A2''], ''https://cvc.cervantes.es/ensenanza/biblioteca_ele/plan_curricular/niveles/09_nociones_especificas_inventario_a1-a2.htm''),
     (9, [ascii ''B1'', ascii ''B2''], ''https://cvc.cervantes.es/ensenanza/biblioteca_ele/plan_curricular/niveles/09_nociones_especificas_inventario_b1-b2.htm''),
     (9, [ascii ''C1'', ascii ''C2''], ''https://cvc.cervantes.es/ensenanza/biblioteca_ele/plan_curricular/niveles/09_nociones_especificas_inventario_c1-c2.htm'')]"

text \<open>
  \<open>for i in range(2): words_by_level[levels_in_page[i]].update(result[i])\<close>, with the
  IndexError and KeyError of its subscripts.
\<close>

fun update_loop :: "nat list \<Rightarrow> ustring list \<Rightarrow> ustring set list \<Rightarrow> state \<Rightarrow> error option \<times> state" where
  "update_loop [] levels_in_page result st = (None, st)"
| "update_loop (i # is) levels_in_page result st =
     (if i < length levels_in_page then
        (case words_by_level st (levels_in_page ! i) of
           None \<Rightarrow> (Some KeyError, st)
         | Some ws \<Rightarrow>
             if i < length result then
               update_loop is levels_in_page result
                 (st\<lparr>words_by_level := (words_by_level st)(levels_in_page ! i \<mapsto> ws \<union> result ! i)\<rparr>)
             else (Some IndexError, st))
      else (Some IndexError, st))"

text \<open>\<open>for doc in docs\<close>: an exception of \<open>parse\<close> or of the update ends the run.\<close>

fun docs_loop :: "(string \<Rightarrow> soup option) \<Rightarrow> doc list \<Rightarrow> state \<Rightarrow> error option \<times> state" where
  "docs_loop fetch [] st = (None, st)"
| "docs_loop fetch ((section_number, levels_in_page, url) # ds) st =
     (case parse fetch url section_number levels_in_page st of
        (Inl e, st') \<Rightarrow> (Some e, st')
      | (Inr result, st') \<Rightarrow>
          (case update_loop [0..<2] levels_in_page result st' of
             (Some e, st'') \<Rightarrow> (Some e, st'')
           | (None, st'') \<Rightarrow> docs_loop fetch ds st''))"

text \<open>\<open>sep.join(xs)\<close>.\<close>

fun join :: "ustring \<Rightarrow> ustring list \<Rightarrow> ustring" where
  "join sep [] = []"
| "join sep [x] = x"
| "join sep (x # y # ys) = x @ sep @ join sep (y # ys)"

text \<open>
  The last loop: one file per level, \<open>'\n'.join(words_by_level[level])\<close> written to it,
  then closed. The order in which Python iterates over a set is not fixed by the
  language; it is the parameter \<open>iter\<close>, which lists a set.
\<close>

fun raw_loop :: "(ustring set \<Rightarrow> ustring list) \<Rightarrow> ustring list \<Rightarrow> state \<Rightarrow> error option \<times> state" where
  "raw_loop iter [] st = (None, st)"
| "raw_loop iter (level # ls) st =
     (case words_by_level st level of
        None \<Rightarrow> (Some KeyError, st\<lparr>files := files st @ [file_open (level @ ascii ''_all_raw.csv'')]\<rparr>)
      | Some ws \<Rightarrow>
          let output = file_open (level @ ascii ''_all_raw.csv'');
              output = file_write output (join [10] (iter ws));
              output = file_close output
          in raw_loop iter ls (st\<lparr>files := files st @ [output]\<rparr>))"

text \<open>Every iteration order lists each element of a finite set once.\<close>

definition iteration_order :: "(ustring set \<Rightarrow> ustring list) \<Rightarrow> bool" where
  "iteration_order iter \<longleftrightarrow> (\<forall>S. finite S \<longrightarrow> set (iter S) = S \<and> distinct (iter S))"

text \<open>The module from its first line to its last.\<close>

definition main :: "(string \<Rightarrow> soup option) \<Rightarrow> (ustring set \<Rightarrow> ustring list) \<Rightarrow> error option \<times> state" where
  "main fetch iter =
     (case docs_loop fetch docs init_state of
        (Some e, st) \<Rightarrow> (Some e, st)
      | (None, st) \<Rightarrow>
          raw_loop iter all_levels
            (print (ascii ''Total: '' @ str_nat (card (all_words st)) @ ascii '' words'') st))"


section \<open>Auxiliary notions for the statements\<close>

text \<open>
  The tokens of a list that pass the test of \<open>parse\<close> against a vocabulary: equal to
  their own lowercase form and not in the vocabulary.
\<close>

definition kept :: "ustring list \<Rightarrow> ustring set \<Rightarrow> ustring set" where
  "kept ws aw = {w \<in> set ws. w = lower w \<and> w \<notin> aw}"

text \<open>A fresh frame of \<open>parse\<close> with two open files, for concrete instances.\<close>

definition frame0 :: pstate where
  "frame0 = \<lparr>all_words = {}, words_by_level = Map.empty, console = [], files = [],
     outputs = [file_open (ascii ''A1''), file_open (ascii ''A2'')], counts = [0, 0],
     words_in_page_by_level = [{}, {}]\<rparr>"

text \<open>Running a body over a list of items, stopping at the first exception.\<close>

fun foldE :: "('a \<Rightarrow> 's \<Rightarrow> error option \<times> 's) \<Rightarrow> 'a list \<Rightarrow> 's \<Rightarrow> error option \<times> 's" where
  "foldE f [] s = (None, s)"
| "foldE f (x # xs) s =
     (case f x s of (Some e, s') \<Rightarrow> (Some e, s') | (None, s') \<Rightarrow> foldE f xs s')"

text \<open>
  The tags for which the body of a loop
  \<open>while el is not None and (bound is None or el.sourceline < bound.sourceline)\<close>
  with the step \<open>el = el.find_next_sibling(name)\<close> runs, in order: the loop without its
  body. The loop over \<open>h2\<close> is the case without bound.
\<close>

function visited :: "soup \<Rightarrow> string \<Rightarrow> nat option \<Rightarrow> nat option \<Rightarrow> nat list" where
  "visited soup name el bound =
     (case el of
        None \<Rightarrow> []
      | Some e \<Rightarrow>
          if before soup e bound
          then e # visited soup name (find_next_sibling soup e name) bound
          else [])"
  by pat_completeness auto
termination
  by (relation "measure (\<lambda>(soup, name, el, bound). togo soup el)")
     (auto simp: togo_sibling)

declare visited.simps [simp del]

text \<open>All the tags the step \<open>el = el.find_next_sibling(name)\<close> reaches from \<open>el\<close> on.\<close>

function siblings :: "soup \<Rightarrow> string \<Rightarrow> nat option \<Rightarrow> nat list" where
  "siblings soup name el =
     (case el of
        None \<Rightarrow> []
      | Some e \<Rightarrow> e # siblings soup name (find_next_sibling soup e name))"
  by pat_completeness auto
termination
  by (relation "measure (\<lambda>(soup, name, el). togo soup el)")
     (auto simp: togo_sibling)

declare siblings.simps [simp del]

text \<open>
  What the walk does at a cell: either there is a \<open>td\<close> tag, whose text is processed
  for level index \<open>i\<close> under the current section and subsection names, or there is
  none and \<open>cell.text\<close> raises.
\<close>

datatype visit = Cell ustring ustring nat ustring | NoCell

fun visit_step :: "visit \<Rightarrow> pstate \<Rightarrow> error option \<times> pstate" where
  "visit_step (Cell section subsection i raw) p = process_cell section subsection i raw p"
| "visit_step NoCell p = (Some AttributeError, p)"

text \<open>The cells of a row, of a subsection, of a section and of the document, in the order of the walk.\<close>

fun cell_visits :: "soup \<Rightarrow> ustring \<Rightarrow> ustring \<Rightarrow> nat list \<Rightarrow> nat \<Rightarrow> visit list" where
  "cell_visits soup section subsection [] cell = []"
| "cell_visits soup section subsection (i # is) cell =
     (case find_next soup cell ''td'' of
        None \<Rightarrow> [NoCell]
      | Some c \<Rightarrow> Cell section subsection i (tag_text (soup ! c))
                  # cell_visits soup section subsection is c)"

definition subsection_walk :: "soup \<Rightarrow> ustring \<Rightarrow> nat \<Rightarrow> visit list" where
  "subsection_walk soup section h =
     concat (map (cell_visits soup section (strip (tag_text (soup ! h))) [0..<2])
       (visited soup ''tr'' (find_next soup h ''tr'') (find_next_sibling soup h ''h3'')))"

definition section_walk :: "soup \<Rightarrow> nat \<Rightarrow> visit list" where
  "section_walk soup s =
     concat (map (subsection_walk soup (strip (tag_text (soup ! s))))
       (visited soup ''h3'' (find_next soup s ''h3'') (find_next_sibling soup s ''h2'')))"

definition walk :: "soup \<Rightarrow> visit list" where
  "walk soup = concat (map (section_walk soup) (visited soup ''h2'' (soup_find soup ''h2'') None))"

text \<open>A small document for concrete instances: two sections, three subsections.\<close>

definition mk_tag :: "string \<Rightarrow> nat \<Rightarrow> nat option \<Rightarrow> ustring \<Rightarrow> tag" where
  "mk_tag name line par txt = \<lparr>tag_name = name, tag_text = txt, sourceline = line, tag_parent = par\<rparr>"

definition soup0 :: soup where
  "soup0 =
    [mk_tag ''h1'' 1 None (ascii ''Nociones generales. Inventario A1-A2''),
     mk_tag ''h2'' 2 None (ascii ''Uno''),
     mk_tag ''h3'' 3 None (ascii ''Sub a''),
     mk_tag ''table'' 4 None [],
     mk_tag ''tr'' 5 (Some 3) [],
     mk_tag ''td'' 5 (Some 4) (ascii ''hola adi'' @ [243] @ ascii ''s hola''),
     mk_tag ''td'' 6 (Some 4) (ascii ''Casa, perro''),
     mk_tag ''h3'' 7 None (ascii ''Sub b''),
     mk_tag ''table'' 8 None [],
     mk_tag ''tr'' 9 (Some 8) [],
     mk_tag ''td'' 9 (Some 9) (ascii ''el sol''),
     mk_tag ''td'' 10 (Some 9) (ascii ''12, 3.''),
     mk_tag ''h2'' 11 None (ascii ''Dos''),
     mk_tag ''h3'' 12 None (ascii ''Sub c''),
     mk_tag ''table'' 13 None [],
     mk_tag ''tr'' 14 (Some 14) [],
     mk_tag ''td'' 14 (Some 15) (ascii ''hola luna''),
     mk_tag ''td'' 15 (Some 15) (ascii ''la Luna'')]"

text \<open>
  The state of \<open>parse\<close> when the walk begins, and what \<open>parse\<close> does once the walk has
  ended without an exception: the two parts of \<open>parse\<close> around \<open>sections_loop\<close>.
\<close>

definition start_frame :: "soup \<Rightarrow> nat \<Rightarrow> int \<Rightarrow> ustring list \<Rightarrow> state \<Rightarrow> pstate" where
  "start_frame soup h1 page_number levels st =
     \<lparr>all_words = all_words st, words_by_level = words_by_level st,
      console = console st, files = files st,
      outputs = map (\<lambda>output. file_write output header)
        (map (\<lambda>level. file_open (level @ [95] @ str_int page_number @ [95]
               @ replace_space (hd (split 46 (strip (tag_text (soup ! h1))))) @ ascii ''.csv'')) levels),
      counts = [0, 0],
      words_in_page_by_level = [{}, {}]\<rparr>"

definition finish :: "soup \<Rightarrow> nat \<Rightarrow> int \<Rightarrow> ustring list \<Rightarrow> pstate \<Rightarrow> (error + ustring set list) \<times> state" where
  "finish soup h1 page_number levels p =
     (let p1 = print (ascii ''Section '' @ str_int page_number @ ascii '': ''
                 @ hd (split 46 (strip (tag_text (soup ! h1))))) p
      in case levels of
           [] \<Rightarrow> (Inl IndexError, leave p1)
         | l0 # ls \<Rightarrow>
             let p2 = print (ascii ''Level '' @ l0 @ ascii '': ''
                        @ format_4d (counts p1 ! 0) @ ascii '' words'') p1
             in (case ls of
                   [] \<Rightarrow> (Inl IndexError, leave p2)
                 | l1 # _ \<Rightarrow>
                     let p3 = print (ascii ''Level '' @ l1 @ ascii '': ''
                                @ format_4d (counts p2 ! 1) @ ascii '' words'') p2
                     in (Inr (words_in_page_by_level p3), leave p3)))"

text \<open>What a cell leaves alone.\<close>

definition same_frame :: "pstate \<Rightarrow> pstate \<Rightarrow> bool" where
  "same_frame p q \<longleftrightarrow>
     all_words p \<subseteq> all_words q \<and> words_by_level q = words_by_level p \<and>
     console q = console p \<and> files q = files p \<and>
     length (outputs q) = length (outputs p) \<and>
     map sink_name (outputs q) = map sink_name (outputs p) \<and>
     map sink_closed (outputs q) = map sink_closed (outputs p) \<and>
     length (counts q) = length (counts p) \<and>
     length (words_in_page_by_level q) = length (words_in_page_by_level p)"

text \<open>
  The tokens \<open>parse\<close> reads in a cell (none when the cleaned text is empty), the
  tokens of the walk, and those of them that are their own lowercase form.
\<close>

definition cell_tokens :: "ustring \<Rightarrow> ustring list" where
  "cell_tokens raw = (if clean raw = [] then [] else split 32 (clean raw))"

fun visit_tokens :: "visit \<Rightarrow> ustring list" where
  "visit_tokens (Cell section subsection i raw) = cell_tokens raw"
| "visit_tokens NoCell = []"

definition qualifying :: "visit list \<Rightarrow> ustring set" where
  "qualifying vs = {w \<in> set (concat (map visit_tokens vs)). w = lower w}"

text \<open>
  What holds of the locals of \<open>parse\<close> during the walk, \<open>A\<close> being \<open>all_words\<close> when
  \<open>parse\<close> was called.
\<close>

definition frame_inv :: "ustring set \<Rightarrow> pstate \<Rightarrow> bool" where
  "frame_inv A p \<longleftrightarrow>
     length (words_in_page_by_level p) = 2 \<and> length (counts p) = 2 \<and>
     finite (words_in_page_by_level p ! 0) \<and> finite (words_in_page_by_level p ! 1) \<and>
     words_in_page_by_level p ! 0 \<inter> words_in_page_by_level p ! 1 = {} \<and>
     (words_in_page_by_level p ! 0 \<union> words_in_page_by_level p ! 1) \<inter> A = {} \<and>
     all_words p = A \<union> words_in_page_by_level p ! 0 \<union> words_in_page_by_level p ! 1 \<and>
     counts p ! 0 = card (words_in_page_by_level p ! 0) \<and>
     counts p ! 1 = card (words_in_page_by_level p ! 1)"

text \<open>The word set of a level in \<open>words_by_level\<close>, empty for a level that is no key.\<close>

definition level_words :: "state \<Rightarrow> ustring \<Rightarrow> ustring set" where
  "level_words st level = (case words_by_level st level of None \<Rightarrow> {} | Some ws \<Rightarrow> ws)"

text \<open>
  The per-level word sets are finite, lie within \<open>all_words\<close>, and those of two
  different levels share no word.
\<close>

definition run_inv :: "state \<Rightarrow> bool" where
  "run_inv st \<longleftrightarrow>
     (\<forall>L. finite (level_words st L) \<and> level_words st L \<subseteq> all_words st) \<and>
     (\<forall>L1 L2. L1 \<noteq> L2 \<longrightarrow> level_words st L1 \<inter> level_words st L2 = {})"

text \<open>
  The values returned by the calls of \<open>parse\<close> in \<open>for doc in docs\<close>, each with the
  level pair of its document, up to the first exception; and the union of the returned
  sets that the update loop attributes to a level.
\<close>

fun doc_results :: "(string \<Rightarrow> soup option) \<Rightarrow> doc list \<Rightarrow> state \<Rightarrow> (ustring list \<times> ustring set list) list" where
  "doc_results fetch [] st = []"
| "doc_results fetch ((section_number, levels_in_page, url) # ds) st =
     (case parse fetch url section_number levels_in_page st of
        (Inl e, st') \<Rightarrow> []
      | (Inr result, st') \<Rightarrow>
          (levels_in_page, result) #
          (case update_loop [0..<2] levels_in_page result st' of
             (Some e, st'') \<Rightarrow> []
           | (None, st'') \<Rightarrow> doc_results fetch ds st''))"

definition attributed :: "ustring \<Rightarrow> (ustring list \<times> ustring set list) list \<Rightarrow> ustring set" where
  "attributed L rs = (\<Union>(levels, r) \<in> set rs. \<Union>i \<in> {i \<in> set [0..<2]. levels ! i = L}. r ! i)"

text \<open>The file the last loop leaves for a level.\<close>

definition raw_file :: "(ustring set \<Rightarrow> ustring list) \<Rightarrow> state \<Rightarrow> ustring \<Rightarrow> sink" where
  "raw_file iter st level =
     \<lparr>sink_name = level @ ascii ''_all_raw.csv'', sink_closed = True,
      sink_written = [join [10] (iter (level_words st level))]\<rparr>"

text \<open>The tokens of a document's walk that are their own lowercase form.\<close>

definition doc_qualifying :: "(string \<Rightarrow> soup option) \<Rightarrow> doc \<Rightarrow> ustring set" where
  "doc_qualifying fetch d =
     (case d of (section_number, levels_in_page, url) \<Rightarrow>
        (case fetch url of None \<Rightarrow> {} | Some soup \<Rightarrow> qualifying (walk soup)))"

text \<open>
  A page on which the walk meets no exception: the request succeeds, there is an \<open>h1\<close>,
  and every visited row is followed by two \<open>td\<close> tags.
\<close>

definition complete_page :: "(string \<Rightarrow> soup option) \<Rightarrow> string \<Rightarrow> bool" where
  "complete_page fetch url =
     (case fetch url of
        None \<Rightarrow> False
      | Some soup \<Rightarrow> soup_find soup ''h1'' \<noteq> None \<and> NoCell \<notin> set (walk soup))"

text \<open>
  Two smaller documents: one row with its two cells, and one row without cells, on which
  \<open>parse\<close> raises.
\<close>

definition soup1 :: soup where
  "soup1 =
    [mk_tag ''h1'' 1 None (ascii ''Uno. A''),
     mk_tag ''h2'' 2 None (ascii ''S''),
     mk_tag ''h3'' 3 None (ascii ''T''),
     mk_tag ''tr'' 4 None [],
     mk_tag ''td'' 4 (Some 3) (ascii ''hola sol''),
     mk_tag ''td'' 5 (Some 3) (ascii ''Casa, perro'')]"

definition soup2 :: soup where
  "soup2 =
    [mk_tag ''h1'' 1 None (ascii ''Uno. A''),
     mk_tag ''h2'' 2 None (ascii ''S''),
     mk_tag ''h3'' 3 None (ascii ''T''),
     mk_tag ''tr'' 4 None []]"

text \<open>A file that holds the header line and then lines of the form of \<open>row_line\<close> only.\<close>

definition word_rows :: "sink \<Rightarrow> bool" where
  "word_rows f \<longleftrightarrow>
     (\<exists>rows. sink_written f = header # rows \<and>
        (\<forall>l \<in> set rows. \<exists>section subsection. l = row_line section subsection))"

text \<open>An entry of a document list for the sample documents.\<close>

definition doc1 :: doc where
  "doc1 = (8, [ascii ''A1'', ascii ''A2''], [])"

text \<open>A string without two separators in a row.\<close>

definition no_double :: "nat \<Rightarrow> ustring \<Rightarrow> bool" where
  "no_double sep s \<longleftrightarrow> (\<forall>u v. s \<noteq> u @ [sep, sep] @ v)"

text \<open>
  The lines a walk writes to the file of level index \<open>i\<close>, from a vocabulary \<open>aw\<close> on:
  for each visited cell of that index, the line of the cell's section and subsection
  names, once for each word the cell keeps.
\<close>

fun rows_of :: "visit list \<Rightarrow> ustring set \<Rightarrow> nat \<Rightarrow> ustring list" where
  "rows_of [] aw i = []"
| "rows_of (Cell section subsection j raw # vs) aw i =
     (if j = i then replicate (card (kept (cell_tokens raw) aw)) (row_line section subsection) else [])
     @ rows_of vs (aw \<union> kept (cell_tokens raw) aw) i"
| "rows_of (NoCell # vs) aw i = []"


section \<open>The loops as folds over the walk\<close>

lemma visited_None [simp]: "visited soup name None bound = []"
  by (simp add: visited.simps)

lemma visited_Some [simp]:
  "visited soup name (Some e) bound =
     (if before soup e bound then e # visited soup name (find_next_sibling soup e name) bound else [])"
  by (simp add: visited.simps [of soup name "Some e"])

lemma siblings_None [simp]: "siblings soup name None = []"
  by (simp add: siblings.simps)

lemma siblings_Some [simp]:
  "siblings soup name (Some e) = e # siblings soup name (find_next_sibling soup e name)"
  by (simp add: siblings.simps [of soup name "Some e"])

lemma rows_loop_None [simp]: "rows_loop soup sec sub h3 None p = (None, p)"
  by (simp add: rows_loop.simps)

lemma rows_loop_Some [simp]:
  "rows_loop soup sec sub h3 (Some r) p =
     (if before soup r h3 then
        (case cells_loop soup sec sub [0..<2] r p of
           (Some e, p') \<Rightarrow> (Some e, p')
         | (None, p') \<Rightarrow> rows_loop soup sec sub h3 (find_next_sibling soup r ''tr'') p')
      else (None, p))"
  by (simp add: rows_loop.simps [of soup sec sub h3 "Some r"])

lemma subsections_loop_None [simp]: "subsections_loop soup sec None h2 p = (None, p)"
  by (simp add: subsections_loop.simps)

lemma subsections_loop_Some [simp]:
  "subsections_loop soup sec (Some h) h2 p =
     (if before soup h h2 then
        (case rows_loop soup sec (strip (tag_text (soup ! h))) (find_next_sibling soup h ''h3'')
                (find_next soup h ''tr'') p of
           (Some e, p') \<Rightarrow> (Some e, p')
         | (None, p') \<Rightarrow> subsections_loop soup sec (find_next_sibling soup h ''h3'') h2 p')
      else (None, p))"
  by (simp add: subsections_loop.simps [of soup sec "Some h"] Let_def)

lemma sections_loop_None [simp]: "sections_loop soup None p = (None, p)"
  by (simp add: sections_loop.simps)

lemma sections_loop_Some [simp]:
  "sections_loop soup (Some s) p =
     (case subsections_loop soup (strip (tag_text (soup ! s))) (find_next soup s ''h3'')
             (find_next_sibling soup s ''h2'') p of
        (Some e, p') \<Rightarrow> (Some e, p')
      | (None, p') \<Rightarrow> sections_loop soup (find_next_sibling soup s ''h2'') p')"
  by (simp add: sections_loop.simps [of soup "Some s"] Let_def)

lemma foldE_append:
  "foldE f (xs @ ys) s =
     (case foldE f xs s of (Some e, s') \<Rightarrow> (Some e, s') | (None, s') \<Rightarrow> foldE f ys s')"
  by (induction xs arbitrary: s) (auto split: prod.splits option.splits)

lemma foldE_concat:
  "foldE f (concat (map g xs)) s = foldE (\<lambda>x. foldE f (g x)) xs s"
  by (induction xs arbitrary: s) (auto simp: foldE_append split: prod.splits option.splits)

lemma cells_loop_foldE:
  "cells_loop soup section subsection js cell p =
     foldE visit_step (cell_visits soup section subsection js cell) p"
  by (induction js arbitrary: cell p) (auto split: option.splits prod.splits)

lemma rows_loop_foldE:
  "rows_loop soup sec sub h3 row p =
     foldE (cells_loop soup sec sub [0..<2]) (visited soup ''tr'' row h3) p"
proof (induction soup sec sub h3 row p rule: rows_loop.induct)
  case (1 soup sec sub h3 row p)
  then show ?case
    by (cases row) (auto split: option.splits prod.splits)
qed

lemma subsections_loop_foldE:
  "subsections_loop soup sec h3 h2 p =
     foldE (\<lambda>h. rows_loop soup sec (strip (tag_text (soup ! h)))
                   (find_next_sibling soup h ''h3'') (find_next soup h ''tr''))
       (visited soup ''h3'' h3 h2) p"
proof (induction soup sec h3 h2 p rule: subsections_loop.induct)
  case (1 soup sec h3 h2 p)
  then show ?case
    by (cases h3) (auto split: option.splits prod.splits)
qed

lemma sections_loop_foldE:
  "sections_loop soup h2 p =
     foldE (\<lambda>s. subsections_loop soup (strip (tag_text (soup ! s)))
                   (find_next soup s ''h3'') (find_next_sibling soup s ''h2''))
       (visited soup ''h2'' h2 None) p"
proof (induction soup h2 p rule: sections_loop.induct)
  case (1 soup h2 p)
  then show ?case
    by (cases h2) (auto simp: before_def split: option.splits prod.splits)
qed

lemma sections_loop_walk:
  "sections_loop soup (soup_find soup ''h2'') p = foldE visit_step (walk soup) p"
  unfolding walk_def section_walk_def subsection_walk_def foldE_concat
    sections_loop_foldE subsections_loop_foldE rows_loop_foldE cells_loop_foldE ..

section \<open>Cells\<close>

lemma split_not_Nil: "split sep s \<noteq> []"
  by (induction s) (auto split: list.splits)

lemma keep_words_append:
  "keep_words (xs @ ys) s = keep_words ys (keep_words xs s)"
proof (induction xs arbitrary: s)
  case Nil
  then show ?case by (cases s) simp
next
  case (Cons x xs)
  obtain sw aw where s: "s = (sw, aw)" by (cases s)
  show ?case unfolding s by (simp add: Cons.IH)
qed


lemma keep_words_eq:
  "keep_words ws (sw, aw) = (sw \<union> kept ws aw, aw \<union> kept ws aw)"
proof (induction ws arbitrary: sw aw)
  case Nil
  then show ?case by (simp add: kept_def)
next
  case (Cons w ws)
  show ?case
  proof (cases "w = lower w \<and> w \<notin> aw")
    case True
    have "kept (w # ws) aw = insert w (kept ws (insert w aw))"
      using True by (auto simp: kept_def)
    with True show ?thesis by (simp add: Cons.IH)
  next
    case False
    have "kept (w # ws) aw = kept ws aw"
      using False by (auto simp: kept_def)
    with False show ?thesis by (auto simp add: Cons.IH)
  qed
qed

lemma finite_kept: "finite (kept ws aw)"
  by (simp add: kept_def)

lemma write_rows_ok:
  "i < length outs \<Longrightarrow>
   write_rows outs i ls = Inr (outs[i := (outs ! i)\<lparr>sink_written := sink_written (outs ! i) @ ls\<rparr>])"
proof (induction ls arbitrary: outs)
  case Nil
  then show ?case by simp
next
  case (Cons l ls)
  then show ?case by (simp add: file_write_def)
qed

lemma write_rows_out_of_range:
  "\<not> i < length outs \<Longrightarrow> write_rows outs i ls = (if ls = [] then Inr outs else Inl IndexError)"
  by (cases ls) auto

lemma process_cell_eq:
  "process_cell section subsection i raw p =
    (if clean raw = [] then (None, p)
     else let K = kept (split 32 (clean raw)) (all_words p); p1 = p\<lparr>all_words := all_words p \<union> K\<rparr> in
       if i < length (outputs p) then
         (None, p1\<lparr>outputs := (outputs p)[i := (outputs p ! i)\<lparr>sink_written :=
                      sink_written (outputs p ! i) @ replicate (card K) (row_line section subsection)\<rparr>],
                   counts := (counts p)[i := counts p ! i + card K],
                   words_in_page_by_level := (words_in_page_by_level p)[i := words_in_page_by_level p ! i \<union> K]\<rparr>)
       else if K = {} then (None, p) else (Some IndexError, p1))"
  by (auto simp: process_cell_def Let_def keep_words_eq write_rows_ok write_rows_out_of_range finite_kept)

lemmas text_eval = clean_def ascii_def sub_non_spanish_def spanish_letter_def strip_def isspace_def
  lower_def lower_cp_def

lemma casa_tokens:
  "split 32 (clean (ascii ''Casa, '' @ [193] @ ascii ''rbol. Perro!!'')) =
     [ascii ''Casa'', 193 # ascii ''rbol'', ascii ''Perro'']"
  by (simp add: text_eval)

lemma casa_kept:
  "kept [ascii ''Casa'', 193 # ascii ''rbol'', ascii ''Perro''] aw = {}"
  by (auto simp: kept_def text_eval)

lemma process_cell_nothing_kept:
  "kept (split 32 (clean raw)) (all_words p) = {} \<Longrightarrow>
   process_cell section subsection i raw p = (None, p)"
  by (simp add: process_cell_eq Let_def)

text \<open>
  Claim C1. In the loop over the tokens of a cell, a token is kept if and only if it is
  equal to its own lowercase form and is not in \<open>all_words\<close> at the moment it is
  reached, and a kept token is added to \<open>set_words\<close> and to \<open>all_words\<close>. So the
  loop of a cell keeps the set \<open>kept\<close> of its tokens, and \<open>all_words\<close> after the cell is
  \<open>all_words\<close> before it together with that set. The raw text "Casa, Arbol. Perro!!"
  (with A acute) is cleaned to the tokens Casa, Arbol, Perro; none is kept and the cell
  changes nothing.
\<close>

theorem keep_iff_lowercase_and_new:
  assumes "keep_words pre (sw, aw) = (sw', aw')"
  shows "keep_words (pre @ word # post) (sw, aw) =
           keep_words post (if word = lower word \<and> word \<notin> aw'
                            then (insert word sw', insert word aw') else (sw', aw'))
       \<and> keep_words list_words ({}, all_words p) =
           (kept list_words (all_words p), all_words p \<union> kept list_words (all_words p))
       \<and> (clean raw \<noteq> [] \<longrightarrow>
            all_words (snd (process_cell section subsection i raw p)) =
              all_words p \<union> kept (split 32 (clean raw)) (all_words p))
       \<and> split 32 (clean (ascii ''Casa, '' @ [193] @ ascii ''rbol. Perro!!'')) =
           [ascii ''Casa'', 193 # ascii ''rbol'', ascii ''Perro'']
       \<and> keep_words [ascii ''Casa'', 193 # ascii ''rbol'', ascii ''Perro''] ({}, all_words p) =
           ({}, all_words p)
       \<and> process_cell section subsection i (ascii ''Casa, '' @ [193] @ ascii ''rbol. Perro!!'') p =
           (None, p)"
proof -
  have step: "keep_words (pre @ word # post) (sw, aw) =
           keep_words post (if word = lower word \<and> word \<notin> aw'
                            then (insert word sw', insert word aw') else (sw', aw'))"
    using assms by (simp add: keep_words_append)
  have all: "keep_words list_words ({}, all_words p) =
           (kept list_words (all_words p), all_words p \<union> kept list_words (all_words p))"
    by (simp add: keep_words_eq)
  have cell: "clean raw \<noteq> [] \<longrightarrow>
            all_words (snd (process_cell section subsection i raw p)) =
              all_words p \<union> kept (split 32 (clean raw)) (all_words p)"
    by (auto simp: process_cell_eq Let_def)
  have none: "keep_words [ascii ''Casa'', 193 # ascii ''rbol'', ascii ''Perro''] ({}, all_words p) =
           ({}, all_words p)"
    by (simp add: keep_words_eq casa_kept)
  have zero: "process_cell section subsection i (ascii ''Casa, '' @ [193] @ ascii ''rbol. Perro!!'') p =
           (None, p)"
    by (rule process_cell_nothing_kept) (simp only: casa_tokens casa_kept)
  from step all cell casa_tokens none zero show ?thesis by blast
qed

theorem keep_iff_lowercase_and_new_witness:
  "keep_words [ascii ''hola''] ({}, {}) = ({ascii ''hola''}, {ascii ''hola''})
   \<and> keep_words ([ascii ''hola''] @ ascii ''Hola'' # [ascii ''hola'', ascii ''sol'']) ({}, {}) =
       keep_words [ascii ''hola'', ascii ''sol''] ({ascii ''hola''}, {ascii ''hola''})
   \<and> clean (ascii ''el sol'') \<noteq> []"
proof -
  have h: "keep_words [ascii ''hola''] ({}, {}) = ({ascii ''hola''}, {ascii ''hola''})"
    by (simp add: text_eval)
  have l: "ascii ''Hola'' \<noteq> lower (ascii ''Hola'')"
    by (simp add: text_eval)
  have c: "clean (ascii ''el sol'') \<noteq> []"
    by (simp add: text_eval)
  from keep_iff_lowercase_and_new [OF h, of "ascii ''Hola''" "[ascii ''hola'', ascii ''sol'']"
        "[]" frame0 "ascii ''el sol''" "[]" "[]" 0]
  have "keep_words ([ascii ''hola''] @ ascii ''Hola'' # [ascii ''hola'', ascii ''sol'']) ({}, {}) =
       keep_words [ascii ''hola'', ascii ''sol''] ({ascii ''hola''}, {ascii ''hola''})"
    using l by presburger
  with h c show ?thesis by blast
qed

lemma hola_tokens:
  "split 32 (clean (ascii ''hola adi'' @ [243] @ ascii ''s hola'')) =
     [ascii ''hola'', ascii ''adi'' @ [243] @ ascii ''s'', ascii ''hola'']"
  by (simp add: text_eval)

lemma hola_clean: "clean (ascii ''hola adi'' @ [243] @ ascii ''s hola'') \<noteq> []"
  by (simp add: text_eval)

lemma hola_kept:
  "ascii ''hola'' \<notin> aw \<Longrightarrow> ascii ''adi'' @ [243] @ ascii ''s'' \<notin> aw \<Longrightarrow>
   kept [ascii ''hola'', ascii ''adi'' @ [243] @ ascii ''s'', ascii ''hola''] aw =
     {ascii ''hola'', ascii ''adi'' @ [243] @ ascii ''s''}"
  by (auto simp: kept_def text_eval)

lemma hola_card: "card {ascii ''hola'', ascii ''adi'' @ [243] @ ascii ''s''} = 2"
  by (simp add: text_eval)

text \<open>
  Claim C8. The raw text "hola adios hola" (with o acute) is cleaned to the tokens hola,
  adios, hola. When neither word is in \<open>all_words\<close>, the set kept for the cell is
  the two words, both are added to \<open>all_words\<close> and to the word set of the cell's
  level, two lines are written, and the count of the level grows by 2.
\<close>

theorem hola_scenario:
  assumes "ascii ''hola'' \<notin> all_words p" and "ascii ''adi'' @ [243] @ ascii ''s'' \<notin> all_words p"
    and "i < length (outputs p)"
  shows "split 32 (clean (ascii ''hola adi'' @ [243] @ ascii ''s hola'')) =
           [ascii ''hola'', ascii ''adi'' @ [243] @ ascii ''s'', ascii ''hola'']
       \<and> fst (keep_words [ascii ''hola'', ascii ''adi'' @ [243] @ ascii ''s'', ascii ''hola'']
                ({}, all_words p)) = {ascii ''hola'', ascii ''adi'' @ [243] @ ascii ''s''}
       \<and> process_cell section subsection i (ascii ''hola adi'' @ [243] @ ascii ''s hola'') p =
           (None, p\<lparr>all_words := all_words p \<union> {ascii ''hola'', ascii ''adi'' @ [243] @ ascii ''s''},
                     outputs := (outputs p)[i := (outputs p ! i)\<lparr>sink_written :=
                        sink_written (outputs p ! i) @ replicate 2 (row_line section subsection)\<rparr>],
                     counts := (counts p)[i := counts p ! i + 2],
                     words_in_page_by_level := (words_in_page_by_level p)
                        [i := words_in_page_by_level p ! i \<union> {ascii ''hola'', ascii ''adi'' @ [243] @ ascii ''s''}]\<rparr>)"
proof -
  let ?K = "{ascii ''hola'', ascii ''adi'' @ [243] @ ascii ''s''}"
  have k: "kept (split 32 (clean (ascii ''hola adi'' @ [243] @ ascii ''s hola''))) (all_words p) = ?K"
    using hola_kept [OF assms(1,2)] by (simp only: hola_tokens)
  have a: "fst (keep_words [ascii ''hola'', ascii ''adi'' @ [243] @ ascii ''s'', ascii ''hola'']
                ({}, all_words p)) = ?K"
    using hola_kept [OF assms(1,2)] by (simp only: keep_words_eq fst_conv Un_empty_left)
  have b: "process_cell section subsection i (ascii ''hola adi'' @ [243] @ ascii ''s hola'') p =
           (None, p\<lparr>all_words := all_words p \<union> ?K,
                     outputs := (outputs p)[i := (outputs p ! i)\<lparr>sink_written :=
                        sink_written (outputs p ! i) @ replicate 2 (row_line section subsection)\<rparr>],
                     counts := (counts p)[i := counts p ! i + 2],
                     words_in_page_by_level := (words_in_page_by_level p)
                        [i := words_in_page_by_level p ! i \<union> ?K]\<rparr>)"
    unfolding process_cell_eq Let_def k hola_card using hola_clean assms(3) by (simp only: if_False if_True)
  from hola_tokens a b show ?thesis by blast
qed

theorem hola_scenario_witness:
  "ascii ''hola'' \<notin> all_words frame0 \<and> ascii ''adi'' @ [243] @ ascii ''s'' \<notin> all_words frame0
   \<and> 0 < length (outputs frame0)
   \<and> counts (snd (process_cell [] [] 0 (ascii ''hola adi'' @ [243] @ ascii ''s hola'') frame0)) = [2, 0]
   \<and> all_words (snd (process_cell [] [] 0 (ascii ''hola adi'' @ [243] @ ascii ''s hola'') frame0)) =
        {ascii ''hola'', ascii ''adi'' @ [243] @ ascii ''s''}"
proof -
  have h1: "ascii ''hola'' \<notin> all_words frame0" by (simp add: frame0_def)
  have h2: "ascii ''adi'' @ [243] @ ascii ''s'' \<notin> all_words frame0" by (simp add: frame0_def)
  have h3: "0 < length (outputs frame0)" by (simp add: frame0_def)
  have c: "counts frame0 = [0, 0]" and a: "all_words frame0 = {}" by (simp_all add: frame0_def)
  from hola_scenario [OF h1 h2 h3, of "[]" "[]"]
  have e: "process_cell [] [] 0 (ascii ''hola adi'' @ [243] @ ascii ''s hola'') frame0 =
           (None, frame0\<lparr>all_words := all_words frame0 \<union> {ascii ''hola'', ascii ''adi'' @ [243] @ ascii ''s''},
                     outputs := (outputs frame0)[0 := (outputs frame0 ! 0)\<lparr>sink_written :=
                        sink_written (outputs frame0 ! 0) @ replicate 2 (row_line [] [])\<rparr>],
                     counts := (counts frame0)[0 := counts frame0 ! 0 + 2],
                     words_in_page_by_level := (words_in_page_by_level frame0)
                        [0 := words_in_page_by_level frame0 ! 0 \<union> {ascii ''hola'', ascii ''adi'' @ [243] @ ascii ''s''}]\<rparr>)"
    by blast
  show ?thesis unfolding e using h1 h2 h3 by (simp add: c a)
qed

text \<open>
  Claim C9. A cell whose cleaned text is empty leaves the state as it is: no line is
  written, nothing is added to \<open>all_words\<close> or to the word set of the level, the count
  stays, and the loop goes on to the next cell.
\<close>

theorem empty_cell_skipped:
  assumes "clean raw = []"
  shows "process_cell section subsection i raw p = (None, p)
       \<and> (find_next soup cell ''td'' = Some c \<and> tag_text (soup ! c) = raw \<longrightarrow>
            cells_loop soup section subsection (i # is) cell p =
              cells_loop soup section subsection is c p)"
  using assms by (auto simp: process_cell_def)

theorem empty_cell_skipped_witness:
  "clean (ascii '' 12, 3. '') = []
   \<and> process_cell [] [] 1 (ascii '' 12, 3. '') frame0 = (None, frame0)"
proof -
  have h: "clean (ascii '' 12, 3. '') = []" by (simp add: text_eval)
  from empty_cell_skipped [OF h, of "[]" "[]" 1 frame0] h show ?thesis by blast
qed

section \<open>Sections and their subsections\<close>




lemma visited_takeWhile:
  "visited soup name el bound = takeWhile (\<lambda>e. before soup e bound) (siblings soup name el)"
proof (induction soup name el rule: siblings.induct)
  case (1 soup name el)
  then show ?case by (cases el) auto
qed








section \<open>\<open>parse\<close> as a fold over the walk\<close>

lemma parse_walk:
  "parse fetch url page_number levels st =
     (case fetch url of
        None \<Rightarrow> (Inl NetworkError, st)
      | Some soup \<Rightarrow>
          (case soup_find soup ''h1'' of
             None \<Rightarrow> (Inl AttributeError, st)
           | Some h1 \<Rightarrow>
               (case foldE visit_step (walk soup) (start_frame soup h1 page_number levels st) of
                  (Some e, p) \<Rightarrow> (Inl e, leave p)
                | (None, p) \<Rightarrow> finish soup h1 page_number levels p)))"
  by (simp add: parse_def start_frame_def finish_def Let_def sections_loop_walk
      split: option.splits prod.splits)

lemma foldE_rel:
  assumes "\<And>x s. x \<in> set xs \<Longrightarrow> R s (snd (f x s))" and "\<And>s. R s s"
    and "\<And>a b c. R a b \<Longrightarrow> R b c \<Longrightarrow> R a c"
  shows "R s (snd (foldE f xs s))"
  using assms(1)
proof (induction xs arbitrary: s)
  case Nil
  show ?case by (simp add: assms(2))
next
  case (Cons x xs)
  obtain e s' where fx: "f x s = (e, s')" by (cases "f x s")
  have 1: "R s s'" using Cons.prems [of x s] fx by simp
  show ?case
  proof (cases e)
    case None
    have "R s' (snd (foldE f xs s'))" by (rule Cons.IH) (simp add: Cons.prems)
    with 1 have "R s (snd (foldE f xs s'))" by (rule assms(3))
    with fx None show ?thesis by simp
  next
    case (Some err)
    with fx 1 show ?thesis by simp
  qed
qed

lemma foldE_inv:
  assumes "\<And>x s s'. x \<in> set xs \<Longrightarrow> I s \<Longrightarrow> f x s = (None, s') \<Longrightarrow> I s'"
  shows "I s \<Longrightarrow> foldE f xs s = (None, s') \<Longrightarrow> I s'"
  using assms
proof (induction xs arbitrary: s)
  case Nil
  then show ?case by simp
next
  case (Cons x xs)
  obtain e s1 where fx: "f x s = (e, s1)" by (cases "f x s")
  with Cons.prems(2) have e: "e = None" and r: "foldE f xs s1 = (None, s')"
    by (auto split: option.splits)
  have "I s1" using Cons.prems(3) [of x s s1] Cons.prems(1) fx e by simp
  then show ?case using r by (rule Cons.IH) (auto intro: Cons.prems(3))
qed

lemma same_frame_refl: "same_frame p p"
  by (simp add: same_frame_def)

lemma same_frame_trans: "same_frame p q \<Longrightarrow> same_frame q r \<Longrightarrow> same_frame p r"
  by (auto simp: same_frame_def)

lemma process_cell_same_frame: "same_frame p (snd (process_cell sec sub i raw p))"
  by (auto simp: process_cell_eq Let_def same_frame_def map_update list_update_same_conv)

lemma visit_step_same_frame: "same_frame p (snd (visit_step x p))"
  by (cases x) (simp_all add: process_cell_same_frame same_frame_refl)

lemma walk_same_frame: "same_frame p (snd (foldE visit_step vs p))"
  by (rule foldE_rel) (auto intro: visit_step_same_frame same_frame_refl same_frame_trans)

section \<open>What the walk keeps\<close>

lemma upt_0_2: "[0..<2] = [0, 1]"
  by (simp add: numeral_2_eq_2)

lemma kept_disjoint: "kept ws aw \<inter> aw = {}"
  by (auto simp: kept_def)

lemma kept_Un: "aw \<union> kept ws aw = aw \<union> {w \<in> set ws. w = lower w}"
  by (auto simp: kept_def)

lemma process_cell_tokens:
  "process_cell sec sub i raw p = (None, p') \<Longrightarrow>
   all_words p' = all_words p \<union> {w \<in> set (cell_tokens raw). w = lower w}"
  by (auto simp: process_cell_eq Let_def cell_tokens_def kept_def split: if_splits)

lemma process_cell_frame_inv:
  assumes "frame_inv A p" and "i < 2" and "process_cell sec sub i raw p = (None, p')"
  shows "frame_inv A p'"
proof (cases "clean raw = [] \<or> \<not> i < length (outputs p)")
  case True
  with assms(3) have "p' = p"
    by (auto simp: process_cell_eq Let_def split: if_splits)
  with assms(1) show ?thesis by simp
next
  case False
  define K where "K = kept (split 32 (clean raw)) (all_words p)"
  have fin: "finite K" and dis: "K \<inter> all_words p = {}"
    by (simp_all add: K_def finite_kept kept_disjoint)
  from False assms(3) have p': "p' = p\<lparr>all_words := all_words p \<union> K,
      outputs := (outputs p)[i := (outputs p ! i)\<lparr>sink_written :=
         sink_written (outputs p ! i) @ replicate (card K) (row_line sec sub)\<rparr>],
      counts := (counts p)[i := counts p ! i + card K],
      words_in_page_by_level := (words_in_page_by_level p)[i := words_in_page_by_level p ! i \<union> K]\<rparr>"
    by (simp add: process_cell_eq Let_def K_def)
  from assms(2) have "i = 0 \<or> i = 1" by auto
  then show ?thesis
  proof
    assume i: "i = 0"
    have c: "card (words_in_page_by_level p ! 0 \<union> K) = card (words_in_page_by_level p ! 0) + card K"
      using assms(1) fin dis by (intro card_Un_disjoint) (auto simp: frame_inv_def)
    show ?thesis
      using assms(1) fin dis c unfolding p' i frame_inv_def by (simp add: nth_list_update) blast
  next
    assume i: "i = 1"
    have c: "card (words_in_page_by_level p ! 1 \<union> K) = card (words_in_page_by_level p ! 1) + card K"
      using assms(1) fin dis by (intro card_Un_disjoint) (auto simp: frame_inv_def)
    show ?thesis
      using assms(1) fin dis c unfolding p' i frame_inv_def by (simp add: nth_list_update) blast
  qed
qed

lemma cell_visits_index:
  "Cell sec sub i raw \<in> set (cell_visits soup s t js c) \<Longrightarrow> i \<in> set js"
  by (induction js arbitrary: c) (auto split: option.splits)

lemma walk_index: "Cell sec sub i raw \<in> set (walk soup) \<Longrightarrow> i < 2"
  by (auto simp: walk_def section_walk_def subsection_walk_def dest!: cell_visits_index)

lemma walk_frame_inv:
  assumes "frame_inv A p" and "foldE visit_step (walk soup) p = (None, p')"
  shows "frame_inv A p'"
proof (rule foldE_inv [where I = "frame_inv A" and f = visit_step, OF _ assms])
  fix x s s'
  assume "x \<in> set (walk soup)" and "frame_inv A s" and "visit_step x s = (None, s')"
  show "frame_inv A s'"
  proof (cases x)
    case (Cell sec sub i raw)
    with \<open>x \<in> set (walk soup)\<close> have "i < 2" by (auto dest: walk_index)
    with Cell \<open>frame_inv A s\<close> \<open>visit_step x s = (None, s')\<close> show ?thesis
      by (auto intro: process_cell_frame_inv)
  next
    case NoCell
    with \<open>visit_step x s = (None, s')\<close> show ?thesis by simp
  qed
qed

lemma foldE_no_NoCell: "foldE visit_step vs p = (None, p') \<Longrightarrow> NoCell \<notin> set vs"
proof (induction vs arbitrary: p)
  case Nil
  then show ?case by simp
next
  case (Cons v vs)
  then show ?case by (cases v) (auto split: prod.splits option.splits)
qed

lemma qualifying_Cons:
  "qualifying (v # vs) = {w \<in> set (visit_tokens v). w = lower w} \<union> qualifying vs"
  by (auto simp: qualifying_def)

lemma walk_all_words:
  "foldE visit_step vs p = (None, p') \<Longrightarrow> all_words p' = all_words p \<union> qualifying vs"
proof (induction vs arbitrary: p)
  case Nil
  then show ?case by (simp add: qualifying_def)
next
  case (Cons v vs)
  from Cons.prems obtain p1 where 1: "visit_step v p = (None, p1)" and 2: "foldE visit_step vs p1 = (None, p')"
    by (auto split: prod.splits option.splits)
  from 1 obtain sec sub i raw where v: "v = Cell sec sub i raw" by (cases v) auto
  from 1 have "all_words p1 = all_words p \<union> {w \<in> set (visit_tokens v). w = lower w}"
    by (simp add: v process_cell_tokens)
  with Cons.IH [OF 2] show ?case by (auto simp: qualifying_Cons)
qed

lemma walk_nothing_new:
  "NoCell \<notin> set vs \<Longrightarrow> qualifying vs \<subseteq> all_words q \<Longrightarrow> foldE visit_step vs q = (None, q)"
proof (induction vs)
  case Nil
  then show ?case by simp
next
  case (Cons v vs)
  from Cons.prems(1) obtain sec sub i raw where v: "v = Cell sec sub i raw" by (cases v) auto
  have "process_cell sec sub i raw q = (None, q)"
  proof (cases "clean raw = []")
    case True
    then show ?thesis by (simp add: process_cell_eq)
  next
    case False
    with Cons.prems(2) have "kept (split 32 (clean raw)) (all_words q) = {}"
      by (auto simp: v qualifying_Cons cell_tokens_def kept_def)
    then show ?thesis by (rule process_cell_nothing_kept)
  qed
  moreover have "foldE visit_step vs q = (None, q)"
    using Cons.prems by (intro Cons.IH) (auto simp: qualifying_Cons)
  ultimately show ?case by (simp add: v)
qed

section \<open>The tokens of a cleaned cell\<close>

lemma no_double_tl: "no_double sep (c # s) \<Longrightarrow> no_double sep s"
  unfolding no_double_def
proof (intro allI notI)
  fix u v assume a: "\<forall>u v. c # s \<noteq> u @ [sep, sep] @ v" and "s = u @ [sep, sep] @ v"
  then have "c # s = (c # u) @ [sep, sep] @ v" by simp
  with a show False by blast
qed

lemma no_double_hd: "no_double sep (sep # s) \<Longrightarrow> s = [] \<or> hd s \<noteq> sep"
proof (rule ccontr)
  assume a: "no_double sep (sep # s)" and "\<not> (s = [] \<or> hd s \<noteq> sep)"
  then have "sep # s = [] @ [sep, sep] @ tl s" by (cases s) auto
  with a show False unfolding no_double_def by blast
qed

lemma no_double_rev: "no_double sep (rev s) = no_double sep s"
proof -
  have "no_double sep s \<Longrightarrow> no_double sep (rev s)" for s
    unfolding no_double_def
  proof (intro allI notI)
    fix u v assume a: "\<forall>u v. s \<noteq> u @ [sep, sep] @ v" and "rev s = u @ [sep, sep] @ v"
    then have "rev (rev s) = rev (u @ [sep, sep] @ v)" by simp
    then have "s = rev v @ [sep, sep] @ rev u" by simp
    with a show False by blast
  qed
  from this [of s] this [of "rev s"] show ?thesis by auto
qed

lemma no_double_dropWhile: "no_double sep s \<Longrightarrow> no_double sep (dropWhile P s)"
  unfolding no_double_def
proof (intro allI notI)
  fix u v assume a: "\<forall>u v. s \<noteq> u @ [sep, sep] @ v" and d: "dropWhile P s = u @ [sep, sep] @ v"
  have "s = takeWhile P s @ dropWhile P s" by simp
  then have "s = (takeWhile P s @ u) @ [sep, sep] @ v" unfolding d by simp
  with a show False by blast
qed

lemma sub_spaces_hd: "\<exists>t. sub_spaces (b # s) = b # t"
  by (induction "b # s" arbitrary: b s rule: sub_spaces.induct) auto

lemma sub_spaces_no_double: "no_double 32 (sub_spaces s)"
proof (induction s rule: sub_spaces.induct)
  case (1 a b s)
  show ?case
  proof (cases "a = 32 \<and> b = 32")
    case True
    with 1 show ?thesis by simp
  next
    case False
    from sub_spaces_hd [of b s] obtain t where t: "sub_spaces (b # s) = b # t" by blast
    from False 1 have ih: "no_double 32 (b # t)" by (simp add: t)
    have "a # b # t \<noteq> u @ [32, 32] @ v" for u v
    proof (cases u)
      case Nil
      with False show ?thesis by auto
    next
      case (Cons x u')
      with ih show ?thesis unfolding no_double_def by auto
    qed
    moreover have "sub_spaces (a # b # s) = a # b # t" using False t by auto
    ultimately show ?thesis unfolding no_double_def by simp
  qed
qed (auto simp: no_double_def append_eq_Cons_conv)

lemma sub_spaces_set: "set (sub_spaces s) \<subseteq> set s"
  by (induction s rule: sub_spaces.induct) auto

lemma split_set: "w \<in> set (split sep s) \<Longrightarrow> sep \<notin> set w \<and> set w \<subseteq> set s"
proof (induction s arbitrary: w)
  case Nil
  then show ?case by simp
next
  case (Cons c s)
  obtain x xs where sp: "split sep s = x # xs"
    using split_not_Nil [of sep s] by (cases "split sep s") auto
  show ?case
  proof (cases "c = sep")
    case True
    with Cons.prems have "w = [] \<or> w \<in> set (split sep s)" by simp
    with Cons.IH show ?thesis by auto
  next
    case False
    with Cons.prems sp have "w = c # x \<or> w \<in> set xs" by simp
    with Cons.IH [of x] Cons.IH [of w] sp False show ?thesis by auto
  qed
qed

lemma split_hd_empty: "hd (split sep s) = [] \<Longrightarrow> s = [] \<or> hd s = sep"
proof (cases s)
  case Nil
  then show ?thesis by simp
next
  case (Cons c s')
  assume h: "hd (split sep s) = []"
  obtain x xs where sp: "split sep s' = x # xs"
    using split_not_Nil [of sep s'] by (cases "split sep s'") auto
  from h Cons sp show ?thesis by (auto split: if_splits)
qed

lemma split_tl_nonempty:
  "no_double sep s \<Longrightarrow> (s \<noteq> [] \<longrightarrow> last s \<noteq> sep) \<Longrightarrow> [] \<notin> set (tl (split sep s))"
proof (induction s)
  case Nil
  then show ?case by simp
next
  case (Cons c s)
  obtain x xs where sp: "split sep s = x # xs"
    using split_not_Nil [of sep s] by (cases "split sep s") auto
  from Cons.prems(1) have nd: "no_double sep s" by (rule no_double_tl)
  from Cons.prems(2) have l: "s \<noteq> [] \<longrightarrow> last s \<noteq> sep" by auto
  note ih = Cons.IH [OF nd l]
  show ?case
  proof (cases "c = sep")
    case False
    with sp ih show ?thesis by simp
  next
    case True
    from Cons.prems(2) True have ne: "s \<noteq> []" by auto
    from no_double_hd [OF Cons.prems(1) [unfolded True]] ne have "hd s \<noteq> sep" by simp
    with split_hd_empty [of sep s] ne have "x \<noteq> []" by (auto simp: sp)
    with True sp ih show ?thesis by simp
  qed
qed

lemma split_nonempty:
  assumes "no_double sep s" and "s \<noteq> []" and "hd s \<noteq> sep" and "last s \<noteq> sep"
  shows "[] \<notin> set (split sep s)"
proof -
  obtain x xs where sp: "split sep s = x # xs"
    using split_not_Nil [of sep s] by (cases "split sep s") auto
  from split_hd_empty [of sep s] assms(2,3) have "x \<noteq> []" by (auto simp: sp)
  moreover from split_tl_nonempty [OF assms(1)] assms(4) have "[] \<notin> set xs" by (simp add: sp)
  ultimately show ?thesis by (simp add: sp)
qed

lemma strip_ends:
  assumes "strip s \<noteq> []"
  shows "\<not> isspace (hd (strip s)) \<and> \<not> isspace (last (strip s))"
proof -
  let ?d = "dropWhile isspace s"
  let ?r = "dropWhile isspace (rev ?d)"
  from assms have r: "?r \<noteq> []" by (simp add: strip_def)
  then have 1: "\<not> isspace (hd ?r)" by (rule hd_dropWhile)
  have l: "last (strip s) = hd ?r" using r by (simp add: strip_def last_rev)
  have d: "?d \<noteq> []"
  proof
    assume e: "?d = []"
    have "dropWhile isspace (rev []) = ([] :: ustring)" by simp
    with r show False unfolding e by simp
  qed
  then have 2: "\<not> isspace (hd ?d)" by (rule hd_dropWhile)
  have "rev (rev ?d) = rev (takeWhile isspace (rev ?d) @ ?r)" by (simp only: takeWhile_dropWhile_id)
  then have "?d = rev ?r @ rev (takeWhile isspace (rev ?d))"
    by (simp only: rev_append rev_rev_ident)
  moreover have "rev ?r \<noteq> []" using r by simp
  ultimately have "hd ?d = hd (rev ?r)" using hd_append2 [of "rev ?r" "rev (takeWhile isspace (rev ?d))"]
    by simp
  with 2 l 1 show ?thesis by (simp add: strip_def)
qed

lemma strip_set: "set (strip s) \<subseteq> set s"
proof -
  have "set (dropWhile P t) \<subseteq> set t" for P and t :: ustring
    by (auto dest: set_dropWhileD)
  from this [of isspace "rev (dropWhile isspace s)"] this [of isspace s]
  show ?thesis by (auto simp: strip_def)
qed

lemma strip_no_double: "no_double sep s \<Longrightarrow> no_double sep (strip s)"
  by (simp add: strip_def no_double_rev no_double_dropWhile)

lemma clean_set: "c \<in> set (clean raw) \<Longrightarrow> spanish_letter c \<or> c = 32"
proof -
  assume "c \<in> set (clean raw)"
  with strip_set sub_spaces_set have "c \<in> set (sub_non_spanish raw)"
    unfolding clean_def by blast
  then have "\<exists>x. c = (if spanish_letter x \<or> x = 32 then x else 32)"
    unfolding sub_non_spanish_def by (simp add: image_iff) blast
  then obtain x where "c = (if spanish_letter x \<or> x = 32 then x else 32)" ..
  then show ?thesis by (cases "spanish_letter x \<or> x = 32") auto
qed

lemma tokens_spanish:
  assumes "w \<in> set (cell_tokens raw)"
  shows "w \<noteq> [] \<and> (\<forall>c \<in> set w. spanish_letter c)"
proof -
  from assms have ne: "clean raw \<noteq> []" and w: "w \<in> set (split 32 (clean raw))"
    by (auto simp: cell_tokens_def split: if_splits)
  have nd: "no_double 32 (clean raw)"
    unfolding clean_def by (intro strip_no_double sub_spaces_no_double)
  have sp: "isspace 32" by (simp add: isspace_def)
  from strip_ends [of "sub_spaces (sub_non_spanish raw)"] ne
  have "\<not> isspace (hd (clean raw))" "\<not> isspace (last (clean raw))"
    by (simp_all add: clean_def)
  with sp have "hd (clean raw) \<noteq> 32" "last (clean raw) \<noteq> 32"
    by metis+
  from split_nonempty [OF nd ne this] w have "w \<noteq> []" by auto
  moreover from split_set [OF w] clean_set [of _ raw] have "\<forall>c \<in> set w. spanish_letter c"
    by blast
  ultimately show ?thesis by blast
qed

lemma qualifying_spanish:
  "w \<in> qualifying vs \<Longrightarrow> w \<noteq> [] \<and> (\<forall>c \<in> set w. spanish_letter c)"
proof -
  assume "w \<in> qualifying vs"
  then obtain v where "v \<in> set vs" and w: "w \<in> set (visit_tokens v)"
    by (auto simp: qualifying_def)
  show ?thesis
  proof (cases v)
    case (Cell sec sub i raw)
    with w have "w \<in> set (cell_tokens raw)" by simp
    then show ?thesis by (rule tokens_spanish)
  next
    case NoCell
    with w show ?thesis by simp
  qed
qed

section \<open>What a call of \<open>parse\<close> does\<close>

lemma start_frame_simps [simp]:
  "all_words (start_frame soup h1 n levels st) = all_words st"
  "words_by_level (start_frame soup h1 n levels st) = words_by_level st"
  "console (start_frame soup h1 n levels st) = console st"
  "files (start_frame soup h1 n levels st) = files st"
  "length (outputs (start_frame soup h1 n levels st)) = length levels"
  "map sink_closed (outputs (start_frame soup h1 n levels st)) = replicate (length levels) False"
  "counts (start_frame soup h1 n levels st) = [0, 0]"
  "words_in_page_by_level (start_frame soup h1 n levels st) = [{}, {}]"
  by (simp_all add: start_frame_def file_open_def file_write_def map_replicate_const comp_def)

lemma start_frame_inv: "frame_inv (all_words st) (start_frame soup h1 n levels st)"
  by (simp add: frame_inv_def)

lemma leave_simps [simp]:
  "all_words (leave p) = all_words p"
  "words_by_level (leave p) = words_by_level p"
  "console (leave p) = console p"
  "files (leave p) = files p @ outputs p"
  by (simp_all add: leave_def)

lemma finish_state:
  "all_words (snd (finish soup h1 n levels p)) = all_words p"
  "words_by_level (snd (finish soup h1 n levels p)) = words_by_level p"
  "files (snd (finish soup h1 n levels p)) = files p @ outputs p"
  by (simp_all add: finish_def print_def Let_def split: list.splits)

lemma finish_Inr:
  "finish soup h1 n levels p = (Inr r, st') \<Longrightarrow>
   r = words_in_page_by_level p \<and> 2 \<le> length levels"
  by (auto simp: finish_def print_def Let_def split: list.splits)

lemma finish_two:
  "finish soup h1 n (l0 # l1 # ls) p =
     (Inr (words_in_page_by_level p),
      leave (p\<lparr>console := console p @
        [ascii ''Section '' @ str_int n @ ascii '': '' @ hd (split 46 (strip (tag_text (soup ! h1)))),
         ascii ''Level '' @ l0 @ ascii '': '' @ format_4d (counts p ! 0) @ ascii '' words'',
         ascii ''Level '' @ l1 @ ascii '': '' @ format_4d (counts p ! 1) @ ascii '' words'']\<rparr>))"
  by (simp add: finish_def print_def Let_def leave_def)

lemma parse_globals:
  "all_words st \<subseteq> all_words (snd (parse fetch url n levels st))"
  "words_by_level (snd (parse fetch url n levels st)) = words_by_level st"
proof -
  have "all_words st \<subseteq> all_words (snd (parse fetch url n levels st))
      \<and> words_by_level (snd (parse fetch url n levels st)) = words_by_level st"
  proof (cases "fetch url")
    case None
    then show ?thesis by (simp add: parse_walk)
  next
    case (Some soup)
    show ?thesis
    proof (cases "soup_find soup ''h1''")
      case None
      with Some show ?thesis by (simp add: parse_walk)
    next
      case (Some h1)
      obtain e p where w: "foldE visit_step (walk soup) (start_frame soup h1 n levels st) = (e, p)"
        by (cases "foldE visit_step (walk soup) (start_frame soup h1 n levels st)")
      from walk_same_frame [of "start_frame soup h1 n levels st" "walk soup"] w
      have "all_words st \<subseteq> all_words p" "words_by_level p = words_by_level st"
        by (simp_all add: same_frame_def)
      with \<open>fetch url = Some soup\<close> Some w show ?thesis
        by (cases e) (simp_all add: parse_walk finish_state)
    qed
  qed
  then show "all_words st \<subseteq> all_words (snd (parse fetch url n levels st))"
    and "words_by_level (snd (parse fetch url n levels st)) = words_by_level st" by simp_all
qed

lemma parse_files:
  assumes "fetch url = Some soup" and "soup_find soup ''h1'' = Some h1"
  shows "\<exists>outs. files (snd (parse fetch url n levels st)) = files st @ outs \<and>
           length outs = length levels \<and> (\<forall>f \<in> set outs. \<not> sink_closed f)"
proof -
  obtain e p where w: "foldE visit_step (walk soup) (start_frame soup h1 n levels st) = (e, p)"
    by (cases "foldE visit_step (walk soup) (start_frame soup h1 n levels st)")
  from walk_same_frame [of "start_frame soup h1 n levels st" "walk soup"] w
  have f: "files p = files st" and l: "length (outputs p) = length levels"
    and c: "map sink_closed (outputs p) = replicate (length levels) False"
    by (simp_all add: same_frame_def)
  have "\<forall>f \<in> set (outputs p). \<not> sink_closed f"
  proof
    fix f assume "f \<in> set (outputs p)"
    then have "sink_closed f \<in> set (map sink_closed (outputs p))" by simp
    then show "\<not> sink_closed f" unfolding c by simp
  qed
  moreover have "files (snd (parse fetch url n levels st)) = files st @ outputs p"
    using assms w f by (cases e) (simp_all add: parse_walk finish_state)
  ultimately show ?thesis using l by blast
qed

lemma parse_files_other:
  "fetch url = None \<or> (\<exists>soup. fetch url = Some soup \<and> soup_find soup ''h1'' = None) \<Longrightarrow>
   files (snd (parse fetch url n levels st)) = files st"
  by (auto simp: parse_walk)

lemma parse_Inr:
  assumes "parse fetch url n levels st = (Inr r, st')"
  shows "\<exists>soup h1 p. fetch url = Some soup \<and> soup_find soup ''h1'' = Some h1 \<and>
           foldE visit_step (walk soup) (start_frame soup h1 n levels st) = (None, p) \<and>
           finish soup h1 n levels p = (Inr r, st')"
  using assms by (auto simp: parse_walk split: option.splits prod.splits)

lemma parse_result:
  assumes "parse fetch url n levels st = (Inr r, st')"
  shows "length r = 2 \<and> finite (r ! 0) \<and> finite (r ! 1) \<and> r ! 0 \<inter> r ! 1 = {} \<and>
         (r ! 0 \<union> r ! 1) \<inter> all_words st = {} \<and>
         all_words st' = all_words st \<union> r ! 0 \<union> r ! 1 \<and> 2 \<le> length levels"
proof -
  from parse_Inr [OF assms] obtain soup h1 p where
    w: "foldE visit_step (walk soup) (start_frame soup h1 n levels st) = (None, p)"
    and f: "finish soup h1 n levels p = (Inr r, st')" by blast
  from walk_frame_inv [OF start_frame_inv w] have i: "frame_inv (all_words st) p" .
  from finish_Inr [OF f] have r: "r = words_in_page_by_level p" and l: "2 \<le> length levels" by simp_all
  from finish_state(1) [of soup h1 n levels p] f have a: "all_words st' = all_words p" by simp
  from i r l a show ?thesis unfolding frame_inv_def by simp
qed

lemma parse_all_words:
  assumes "parse fetch url n levels st = (Inr r, st')" and "fetch url = Some soup"
  shows "all_words st' = all_words st \<union> qualifying (walk soup)"
proof -
  from parse_Inr [OF assms(1)] assms(2) obtain h1 p where
    w: "foldE visit_step (walk soup) (start_frame soup h1 n levels st) = (None, p)"
    and f: "finish soup h1 n levels p = (Inr r, st')" by auto
  from finish_state(1) [of soup h1 n levels p] f have a: "all_words st' = all_words p" by simp
  with walk_all_words [OF w] show ?thesis by simp
qed

lemma parse_again:
  assumes "parse fetch url n levels st = (Inr r, st1)" and "all_words st1 \<subseteq> all_words t"
  shows "\<exists>t'. parse fetch url n levels t = (Inr [{}, {}], t') \<and> all_words t' = all_words t
           \<and> words_by_level t' = words_by_level t"
proof -
  from parse_Inr [OF assms(1)] obtain soup h1 p where s: "fetch url = Some soup"
    and h: "soup_find soup ''h1'' = Some h1"
    and w: "foldE visit_step (walk soup) (start_frame soup h1 n levels st) = (None, p)"
    and f: "finish soup h1 n levels p = (Inr r, st1)" by blast
  from finish_Inr [OF f] obtain l0 l1 ls where l: "levels = l0 # l1 # ls"
    by (cases levels; cases "tl levels") auto
  from parse_all_words [OF assms(1) s] assms(2)
  have q: "qualifying (walk soup) \<subseteq> all_words (start_frame soup h1 n levels t)" by simp
  from walk_nothing_new [OF foldE_no_NoCell [OF w] q]
  have "parse fetch url n levels t = finish soup h1 n levels (start_frame soup h1 n levels t)"
    by (simp add: parse_walk s h)
  then show ?thesis
    by (simp add: l finish_two)
qed

section \<open>The loops of the run\<close>

lemma update_loop_step:
  assumes "i < length levels" and "i < length r" and "words_by_level st (levels ! i) = Some ws"
  shows "update_loop (i # js) levels r st =
           update_loop js levels r
             (st\<lparr>words_by_level := (words_by_level st)(levels ! i \<mapsto> ws \<union> r ! i)\<rparr>)"
  using assms by simp

lemma update_loop_stop:
  assumes "\<not> (i < length levels \<and> i < length r \<and> words_by_level st (levels ! i) \<noteq> None)"
  shows "snd (update_loop (i # js) levels r st) = st \<and> fst (update_loop (i # js) levels r st) \<noteq> None"
  using assms by (auto split: option.splits)

lemma update_loop_globals:
  "all_words (snd (update_loop js levels r st)) = all_words st \<and>
   console (snd (update_loop js levels r st)) = console st \<and>
   files (snd (update_loop js levels r st)) = files st \<and>
   dom (words_by_level (snd (update_loop js levels r st))) = dom (words_by_level st)"
proof (induction js arbitrary: st)
  case Nil
  show ?case by simp
next
  case (Cons i js)
  show ?case
  proof (cases "i < length levels \<and> i < length r \<and> words_by_level st (levels ! i) \<noteq> None")
    case False
    from update_loop_stop [OF False] show ?thesis by simp
  next
    case True
    then obtain ws where ws: "words_by_level st (levels ! i) = Some ws" by auto
    define st1 where "st1 = st\<lparr>words_by_level := (words_by_level st)(levels ! i \<mapsto> ws \<union> r ! i)\<rparr>"
    have e: "update_loop (i # js) levels r st = update_loop js levels r st1"
      unfolding st1_def using True ws by (intro update_loop_step) simp_all
    have d: "dom (words_by_level st1) = dom (words_by_level st)"
      using ws by (auto simp: st1_def)
    have g: "all_words st1 = all_words st" "console st1 = console st" "files st1 = files st"
      by (simp_all add: st1_def)
    from Cons.IH [of st1] show ?thesis unfolding e d g .
  qed
qed

lemma update_loop_level_words:
  "update_loop js levels r st = (None, st') \<Longrightarrow>
   level_words st' L = level_words st L \<union> (\<Union>i \<in> {i \<in> set js. levels ! i = L}. r ! i)"
proof (induction js arbitrary: st)
  case Nil
  then show ?case by simp
next
  case (Cons i js)
  from Cons.prems obtain ws where i: "i < length levels" "i < length r"
    and ws: "words_by_level st (levels ! i) = Some ws"
    and rest: "update_loop js levels r
        (st\<lparr>words_by_level := (words_by_level st)(levels ! i \<mapsto> ws \<union> r ! i)\<rparr>) = (None, st')"
    by (auto split: if_splits option.splits)
  from Cons.IH [OF rest] ws show ?case
    by (auto simp: level_words_def split: if_splits)
qed

lemma run_inv_step:
  assumes inv: "run_inv st" and ws: "words_by_level st k = Some ws"
    and fin: "finite R" and sub: "R \<subseteq> all_words st" and dis: "\<forall>L. level_words st L \<inter> R = {}"
  shows "run_inv (st\<lparr>words_by_level := (words_by_level st)(k \<mapsto> ws \<union> R)\<rparr>)"
    (is "run_inv ?st1")
proof -
  have lw: "level_words ?st1 L = (if L = k then level_words st L \<union> R else level_words st L)" for L
    using ws by (simp add: level_words_def)
  have a: "finite (level_words ?st1 L) \<and> level_words ?st1 L \<subseteq> all_words ?st1" for L
    using inv fin sub unfolding lw run_inv_def by simp
  have b: "level_words ?st1 L1 \<inter> level_words ?st1 L2 = {}" if "L1 \<noteq> L2" for L1 L2
  proof -
    from inv that have 0: "level_words st L1 \<inter> level_words st L2 = {}"
      unfolding run_inv_def by blast
    from dis have 1: "level_words st L1 \<inter> R = {}" and 2: "level_words st L2 \<inter> R = {}" by blast+
    from 0 1 2 that show ?thesis unfolding lw by auto
  qed
  from a b show ?thesis unfolding run_inv_def by blast
qed

lemma update_loop_run_inv:
  assumes "run_inv st" and "distinct js"
    and "\<forall>i \<in> set js. finite (r ! i) \<and> r ! i \<subseteq> all_words st \<and> (\<forall>L. level_words st L \<inter> r ! i = {})"
    and "\<forall>i \<in> set js. \<forall>j \<in> set js. i \<noteq> j \<longrightarrow> r ! i \<inter> r ! j = {}"
  shows "run_inv (snd (update_loop js levels r st))"
  using assms
proof (induction js arbitrary: st)
  case Nil
  then show ?case by simp
next
  case (Cons i js)
  show ?case
  proof (cases "i < length levels \<and> i < length r \<and> words_by_level st (levels ! i) \<noteq> None")
    case False
    from update_loop_stop [OF False] Cons.prems(1) show ?thesis by simp
  next
    case True
    then obtain ws where ws: "words_by_level st (levels ! i) = Some ws" by auto
    define st1 where "st1 = st\<lparr>words_by_level := (words_by_level st)(levels ! i \<mapsto> ws \<union> r ! i)\<rparr>"
    have e: "update_loop (i # js) levels r st = update_loop js levels r st1"
      unfolding st1_def using True ws by (intro update_loop_step) simp_all
    have lw: "level_words st1 L = (if L = levels ! i then level_words st L \<union> r ! i else level_words st L)" for L
      using ws by (simp add: st1_def level_words_def)
    have aw: "all_words st1 = all_words st" by (simp add: st1_def)
    from Cons.prems(3) have ri: "finite (r ! i)" "r ! i \<subseteq> all_words st" "\<forall>L. level_words st L \<inter> r ! i = {}"
      by simp_all
    have 1: "run_inv st1"
      unfolding st1_def using Cons.prems(1) ws ri by (rule run_inv_step)
    have 3: "\<forall>j \<in> set js. finite (r ! j) \<and> r ! j \<subseteq> all_words st1 \<and> (\<forall>L. level_words st1 L \<inter> r ! j = {})"
    proof
      fix j assume j: "j \<in> set js"
      with Cons.prems(2) have ij: "i \<noteq> j" by auto
      from Cons.prems(3) j have rj: "finite (r ! j)" "r ! j \<subseteq> all_words st" "\<forall>L. level_words st L \<inter> r ! j = {}"
        by simp_all
      from Cons.prems(4) j ij have d: "r ! i \<inter> r ! j = {}" by simp
      have "level_words st1 L \<inter> r ! j = {}" for L
        using rj(3) d unfolding lw by (auto simp: Int_Un_distrib2)
      with rj show "finite (r ! j) \<and> r ! j \<subseteq> all_words st1 \<and> (\<forall>L. level_words st1 L \<inter> r ! j = {})"
        unfolding aw by blast
    qed
    have 2: "distinct js" using Cons.prems(2) by simp
    have 4: "\<forall>a \<in> set js. \<forall>b \<in> set js. a \<noteq> b \<longrightarrow> r ! a \<inter> r ! b = {}"
      using Cons.prems(4) by simp
    from Cons.IH [OF 1 2 3 4] show ?thesis unfolding e .
  qed
qed

lemma parse_level_words: "level_words (snd (parse fetch url n levels st)) L = level_words st L"
  by (simp add: level_words_def parse_globals(2))

lemma parse_run_inv: "run_inv st \<Longrightarrow> run_inv (snd (parse fetch url n levels st))"
  unfolding run_inv_def parse_level_words using parse_globals(1) [of st fetch url n levels] by blast

lemma parse_update_run_inv:
  assumes "run_inv st" and "parse fetch url n levels st = (Inr r, st')" and "set js \<subseteq> {0, 1}" and "distinct js"
  shows "run_inv (snd (update_loop js levels r st'))"
proof (rule update_loop_run_inv)
  from parse_run_inv [OF assms(1), of fetch url n levels] assms(2) show inv': "run_inv st'" by simp
  show "distinct js" by fact
  note pr = parse_result [OF assms(2)]
  have lw: "level_words st' L = level_words st L" for L
    using parse_level_words [of fetch url n levels st L] assms(2) by simp
  have sub: "level_words st L \<subseteq> all_words st" for L
    using assms(1) by (simp add: run_inv_def)
  show "\<forall>i \<in> set js. finite (r ! i) \<and> r ! i \<subseteq> all_words st' \<and> (\<forall>L. level_words st' L \<inter> r ! i = {})"
  proof
    fix i assume "i \<in> set js"
    with assms(3) have "i = 0 \<or> i = 1" by auto
    then show "finite (r ! i) \<and> r ! i \<subseteq> all_words st' \<and> (\<forall>L. level_words st' L \<inter> r ! i = {})"
      using pr sub unfolding lw by auto
  qed
  show "\<forall>i \<in> set js. \<forall>j \<in> set js. i \<noteq> j \<longrightarrow> r ! i \<inter> r ! j = {}"
  proof (intro ballI impI)
    fix i j assume "i \<in> set js" "j \<in> set js" "i \<noteq> j"
    with assms(3) have "(i = 0 \<and> j = 1) \<or> (i = 1 \<and> j = 0)" by auto
    with pr show "r ! i \<inter> r ! j = {}" by auto
  qed
qed

lemma docs_loop_globals:
  "all_words st \<subseteq> all_words (snd (docs_loop fetch ds st)) \<and>
   dom (words_by_level (snd (docs_loop fetch ds st))) = dom (words_by_level st)"
proof (induction ds arbitrary: st)
  case Nil
  show ?case by simp
next
  case (Cons d ds)
  obtain n levels url where d: "d = (n, levels, url)" by (cases d)
  obtain x st1 where p: "parse fetch url n levels st = (x, st1)" by (cases "parse fetch url n levels st")
  from parse_globals [where st = st and fetch = fetch and url = url and n = n and levels = levels] p
  have 1: "all_words st \<subseteq> all_words st1" "words_by_level st1 = words_by_level st" by simp_all
  show ?case
  proof (cases x)
    case (Inl e)
    with d p 1 show ?thesis by simp
  next
    case (Inr r)
    obtain y st2 where u: "update_loop [0..<2] levels r st1 = (y, st2)"
      by (cases "update_loop [0..<2] levels r st1")
    from update_loop_globals [of "[0..<2]" levels r st1] u
    have 2: "all_words st2 = all_words st1" "dom (words_by_level st2) = dom (words_by_level st1)"
      by simp_all
    show ?thesis
    proof (cases y)
      case (Some e)
      with d p Inr u 1 2 show ?thesis by simp
    next
      case None
      from Cons.IH [of st2] d p Inr u None 1 2 show ?thesis by auto
    qed
  qed
qed

lemma docs_loop_run_inv: "run_inv st \<Longrightarrow> run_inv (snd (docs_loop fetch ds st))"
proof (induction ds arbitrary: st)
  case Nil
  then show ?case by simp
next
  case (Cons d ds)
  obtain n levels url where d: "d = (n, levels, url)" by (cases d)
  obtain x st1 where p: "parse fetch url n levels st = (x, st1)" by (cases "parse fetch url n levels st")
  show ?case
  proof (cases x)
    case (Inl e)
    with d p parse_run_inv [OF Cons.prems, of fetch url n levels] show ?thesis by simp
  next
    case (Inr r)
    obtain y st2 where u: "update_loop [0..<2] levels r st1 = (y, st2)"
      by (cases "update_loop [0..<2] levels r st1")
    from parse_update_run_inv [OF Cons.prems, of fetch url n levels r st1 "[0..<2]"] p Inr u
    have 2: "run_inv st2" by (simp add: upt_0_2)
    show ?thesis
    proof (cases y)
      case (Some e)
      with d p Inr u 2 show ?thesis by simp
    next
      case None
      from Cons.IH [OF 2] d p Inr u None show ?thesis by simp
    qed
  qed
qed

lemma docs_loop_steps:
  assumes "docs_loop fetch ((n, levels, url) # ds) st = (None, st')"
  shows "\<exists>r st1 st2. parse fetch url n levels st = (Inr r, st1) \<and>
           update_loop [0..<2] levels r st1 = (None, st2) \<and> docs_loop fetch ds st2 = (None, st')"
  using assms by (auto split: prod.splits sum.splits option.splits)

lemma docs_loop_level_words:
  "docs_loop fetch ds st = (None, st') \<Longrightarrow>
   level_words st' L = level_words st L \<union> attributed L (doc_results fetch ds st)"
proof (induction ds arbitrary: st)
  case Nil
  then show ?case by (simp add: attributed_def)
next
  case (Cons d ds)
  obtain n levels url where d: "d = (n, levels, url)" by (cases d)
  from docs_loop_steps [OF Cons.prems [unfolded d]] obtain r st1 st2 where
    p: "parse fetch url n levels st = (Inr r, st1)" and
    u: "update_loop [0..<2] levels r st1 = (None, st2)" and
    l: "docs_loop fetch ds st2 = (None, st')" by blast
  have 1: "level_words st1 L = level_words st L"
    using parse_level_words [of fetch url n levels st L] p by simp
  note 2 = update_loop_level_words [OF u, of L]
  note 3 = Cons.IH [OF l]
  have r: "doc_results fetch (d # ds) st = (levels, r) # doc_results fetch ds st2"
    by (simp add: d p u)
  show ?case unfolding r 3 2 1 by (simp add: attributed_def Un_assoc)
qed

lemma docs_loop_covered:
  "docs_loop fetch ds st = (None, st') \<Longrightarrow> all_words st = (\<Union>L. level_words st L) \<Longrightarrow>
   all_words st' = (\<Union>L. level_words st' L)"
proof (induction ds arbitrary: st)
  case Nil
  then show ?case by simp
next
  case (Cons d ds)
  obtain n levels url where d: "d = (n, levels, url)" by (cases d)
  from docs_loop_steps [OF Cons.prems(1) [unfolded d]] obtain r st1 st2 where
    p: "parse fetch url n levels st = (Inr r, st1)" and
    u: "update_loop [0..<2] levels r st1 = (None, st2)" and
    l: "docs_loop fetch ds st2 = (None, st')" by blast
  have 1: "level_words st1 L = level_words st L" for L
    using parse_level_words [of fetch url n levels st L] p by simp
  from parse_result [OF p] have a1: "all_words st1 = all_words st \<union> r ! 0 \<union> r ! 1" by simp
  from update_loop_globals [of "[0..<2]" levels r st1] u have a2: "all_words st2 = all_words st1" by simp
  have 2: "level_words st2 L = level_words st L \<union> (\<Union>i \<in> {i \<in> {0, 1}. levels ! i = L}. r ! i)" for L
    using update_loop_level_words [OF u, of L] by (simp add: 1 upt_0_2)
  have "(\<Union>L. level_words st2 L) = (\<Union>L. level_words st L) \<union> r ! 0 \<union> r ! 1"
    unfolding 2 by auto
  with Cons.prems(2) a1 a2 have "all_words st2 = (\<Union>L. level_words st2 L)" by simp
  with l show ?case by (rule Cons.IH)
qed

lemma docs_loop_qualifying:
  "docs_loop fetch ds st = (None, st') \<Longrightarrow>
   all_words st' = all_words st \<union> (\<Union>d \<in> set ds. doc_qualifying fetch d)"
proof (induction ds arbitrary: st)
  case Nil
  then show ?case by simp
next
  case (Cons d ds)
  obtain n levels url where d: "d = (n, levels, url)" by (cases d)
  from docs_loop_steps [OF Cons.prems(1) [unfolded d]] obtain r st1 st2 where
    p: "parse fetch url n levels st = (Inr r, st1)" and
    u: "update_loop [0..<2] levels r st1 = (None, st2)" and
    l: "docs_loop fetch ds st2 = (None, st')" by blast
  from parse_Inr [OF p] obtain soup where s: "fetch url = Some soup" by blast
  from parse_all_words [OF p s] have a1: "all_words st1 = all_words st \<union> doc_qualifying fetch d"
    by (simp add: doc_qualifying_def d s)
  from update_loop_globals [of "[0..<2]" levels r st1] u have a2: "all_words st2 = all_words st1" by simp
  from Cons.IH [OF l] a1 a2 show ?case by auto
qed

section \<open>The whole run\<close>

lemma raw_file_files [simp]:
  "raw_file iter (st\<lparr>files := fs\<rparr>) = raw_file iter st"
  "raw_file iter (st\<lparr>console := c\<rparr>) = raw_file iter st"
  by (simp_all add: raw_file_def level_words_def fun_eq_iff)

lemma raw_loop_globals:
  "all_words (snd (raw_loop iter ls st)) = all_words st \<and>
   words_by_level (snd (raw_loop iter ls st)) = words_by_level st \<and>
   console (snd (raw_loop iter ls st)) = console st"
proof (induction ls arbitrary: st)
  case Nil
  show ?case by simp
next
  case (Cons l ls)
  show ?case
  proof (cases "words_by_level st l")
    case None
    then show ?thesis by simp
  next
    case (Some ws)
    with Cons.IH [of "st\<lparr>files := files st @ [file_close (file_write (file_open (l @ ascii ''_all_raw.csv'')) (join [10] (iter ws)))]\<rparr>"]
    show ?thesis by (simp add: Let_def)
  qed
qed

lemma raw_loop_files:
  "set ls \<subseteq> dom (words_by_level st) \<Longrightarrow>
   raw_loop iter ls st = (None, st\<lparr>files := files st @ map (raw_file iter st) ls\<rparr>)"
proof (induction ls arbitrary: st)
  case Nil
  show ?case by simp
next
  case (Cons l ls)
  from Cons.prems obtain ws where ws: "words_by_level st l = Some ws" by auto
  define st1 where "st1 = st\<lparr>files := files st @ [raw_file iter st l]\<rparr>"
  have f: "file_close (file_write (file_open (l @ ascii ''_all_raw.csv'')) (join [10] (iter ws))) = raw_file iter st l"
    by (simp add: file_close_def file_write_def file_open_def raw_file_def level_words_def ws)
  have e: "raw_loop iter (l # ls) st = raw_loop iter ls st1"
    by (simp add: ws Let_def f st1_def)
  have "set ls \<subseteq> dom (words_by_level st1)" using Cons.prems by (simp add: st1_def)
  from Cons.IH [OF this] show ?case unfolding e by (simp add: st1_def)
qed

lemma init_state_simps:
  "all_words init_state = {}" "console init_state = []" "files init_state = []"
  "dom (words_by_level init_state) = set all_levels"
  "level_words init_state L = {}"
  by (auto simp: init_state_def all_levels_def level_words_def split: if_splits)

lemma init_run_inv: "run_inv init_state"
  by (simp add: run_inv_def init_state_simps)

lemma main_None:
  assumes "main fetch iter = (None, st)"
  shows "\<exists>st0. docs_loop fetch docs init_state = (None, st0) \<and>
           st = st0\<lparr>console := console st0 @ [ascii ''Total: '' @ str_nat (card (all_words st0)) @ ascii '' words''],
                    files := files st0 @ map (raw_file iter st0) all_levels\<rparr>"
proof -
  obtain e st0 where d: "docs_loop fetch docs init_state = (e, st0)"
    by (cases "docs_loop fetch docs init_state")
  with assms have e: "e = None" by (cases e) (simp_all add: main_def)
  from docs_loop_globals [of init_state fetch docs] d
  have "set all_levels \<subseteq> dom (words_by_level st0)" by (simp add: init_state_simps)
  then have "set all_levels \<subseteq> dom (words_by_level (print (ascii ''Total: '' @ str_nat (card (all_words st0)) @ ascii '' words'') st0))"
    by (simp add: print_def)
  from raw_loop_files [OF this, of iter] assms d e show ?thesis
    by (auto simp: main_def print_def)
qed

lemma walk_completes:
  "NoCell \<notin> set vs \<Longrightarrow> (\<forall>sec sub i raw. Cell sec sub i raw \<in> set vs \<longrightarrow> i < length (outputs p)) \<Longrightarrow>
   \<exists>p'. foldE visit_step vs p = (None, p')"
proof (induction vs arbitrary: p)
  case Nil
  show ?case by simp
next
  case (Cons v vs)
  from Cons.prems(1) obtain sec sub i raw where v: "v = Cell sec sub i raw" by (cases v) auto
  with Cons.prems(2) have i: "i < length (outputs p)" by simp
  have "fst (process_cell sec sub i raw p) = None"
    using i by (simp add: process_cell_eq Let_def)
  then obtain p1 where 1: "process_cell sec sub i raw p = (None, p1)"
    by (cases "process_cell sec sub i raw p") simp
  from process_cell_same_frame [of p sec sub i raw] 1
  have l: "length (outputs p1) = length (outputs p)" by (simp add: same_frame_def)
  have "\<exists>p'. foldE visit_step vs p1 = (None, p')"
    using Cons.prems by (intro Cons.IH) (auto simp: l)
  with 1 v show ?case by simp
qed

lemma parse_completes:
  assumes "complete_page fetch url" and "2 \<le> length levels"
  shows "\<exists>r st'. parse fetch url n levels st = (Inr r, st')"
proof -
  from assms(1) obtain soup h1 where s: "fetch url = Some soup" and h: "soup_find soup ''h1'' = Some h1"
    and w: "NoCell \<notin> set (walk soup)"
    by (auto simp: complete_page_def split: option.splits)
  have "\<forall>sec sub i raw. Cell sec sub i raw \<in> set (walk soup) \<longrightarrow>
          i < length (outputs (start_frame soup h1 n levels st))"
    using assms(2) by (auto dest: walk_index)
  from walk_completes [OF w this] obtain p where
    p: "foldE visit_step (walk soup) (start_frame soup h1 n levels st) = (None, p)" by blast
  from assms(2) obtain l0 l1 ls where l: "levels = l0 # l1 # ls"
    by (cases levels; cases "tl levels") auto
  have "parse fetch url n levels st = finish soup h1 n levels p"
    by (simp add: parse_walk s h p)
  then show ?thesis by (simp add: l finish_two)
qed

lemma update_loop_completes:
  assumes "2 \<le> length levels" and "length r = 2" and "set levels \<subseteq> dom (words_by_level st)"
  shows "\<exists>st'. update_loop [0..<2] levels r st = (None, st')"
proof -
  from assms(1) obtain l0 l1 ls where l: "levels = l0 # l1 # ls"
    by (cases levels; cases "tl levels") auto
  from assms(3) l obtain w0 where w0: "words_by_level st l0 = Some w0" by auto
  from assms(3) l obtain w1 where w1: "words_by_level st l1 = Some w1" by auto
  show ?thesis using assms(2) w0 w1 by (simp add: upt_0_2 l)
qed

lemma docs_loop_completes:
  assumes "\<forall>(n, levels, url) \<in> set ds. 2 \<le> length levels \<and> set levels \<subseteq> dom (words_by_level st)
             \<and> complete_page fetch url"
  shows "\<exists>st'. docs_loop fetch ds st = (None, st')"
  using assms
proof (induction ds arbitrary: st)
  case Nil
  show ?case by simp
next
  case (Cons d ds)
  obtain n levels url where d: "d = (n, levels, url)" by (cases d)
  from Cons.prems d have l: "2 \<le> length levels" and k: "set levels \<subseteq> dom (words_by_level st)"
    and c: "complete_page fetch url" by auto
  from parse_completes [OF c l] obtain r st1 where p: "parse fetch url n levels st = (Inr r, st1)"
    by blast
  from parse_globals(2) [of fetch url n levels st] p have w1: "words_by_level st1 = words_by_level st"
    by simp
  from parse_result [OF p] have lr: "length r = 2" by simp
  from update_loop_completes [OF l lr, of st1] k w1 obtain st2 where
    u: "update_loop [0..<2] levels r st1 = (None, st2)" by auto
  from update_loop_globals [of "[0..<2]" levels r st1] u w1
  have w2: "dom (words_by_level st2) = dom (words_by_level st)" by simp
  have "\<exists>st'. docs_loop fetch ds st2 = (None, st')"
    using Cons.prems by (intro Cons.IH) (auto simp: w2)
  with d p u show ?case by simp
qed

lemma docs_levels: "\<forall>(n, levels, url) \<in> set docs. 2 \<le> length levels \<and> set levels \<subseteq> set all_levels"
  by (simp add: docs_def all_levels_def)

lemma main_completes:
  assumes "\<forall>(n, levels, url) \<in> set docs. complete_page fetch url"
  shows "\<exists>st. main fetch iter = (None, st)"
proof -
  have "\<forall>(n, levels, url) \<in> set docs. 2 \<le> length levels \<and>
          set levels \<subseteq> dom (words_by_level init_state) \<and> complete_page fetch url"
    using assms docs_levels by (auto simp: init_state_simps)
  from docs_loop_completes [OF this] obtain st0 where d: "docs_loop fetch docs init_state = (None, st0)"
    by blast
  from docs_loop_globals [of init_state fetch docs] d
  have "set all_levels \<subseteq> dom (words_by_level (print (ascii ''Total: '' @ str_nat (card (all_words st0)) @ ascii '' words'') st0))"
    by (simp add: init_state_simps print_def)
  from raw_loop_files [OF this, of iter] d show ?thesis by (simp add: main_def)
qed

section \<open>The sample documents\<close>

lemmas soup_eval = mk_tag_def soup_find_def find_next_def find_next_sibling_def before_def
  walk_def section_walk_def subsection_walk_def upt_0_2

lemma soup1_h1: "soup_find soup1 ''h1'' = Some 0"
  by (simp add: soup1_def soup_eval)

lemma soup1_walk:
  "walk soup1 = [Cell (ascii ''S'') (ascii ''T'') 0 (ascii ''hola sol''),
                 Cell (ascii ''S'') (ascii ''T'') 1 (ascii ''Casa, perro'')]"
  by (simp add: soup1_def soup_eval strip_def isspace_def ascii_def)

lemma soup2_h1: "soup_find soup2 ''h1'' = Some 0"
  by (simp add: soup2_def soup_eval)

lemma soup2_walk: "walk soup2 = [NoCell]"
  by (simp add: soup2_def soup_eval strip_def isspace_def ascii_def)

lemma soup1_complete: "complete_page (\<lambda>u. Some soup1) url"
  by (simp add: complete_page_def soup1_h1 soup1_walk)

lemma soup1_tokens:
  "cell_tokens (ascii ''hola sol'') = [ascii ''hola'', ascii ''sol'']"
  "cell_tokens (ascii ''Casa, perro'') = [ascii ''Casa'', ascii ''perro'']"
  by (simp_all add: cell_tokens_def text_eval)

lemma soup1_qualifying: "qualifying (walk soup1) = {ascii ''hola'', ascii ''sol'', ascii ''perro''}"
  unfolding soup1_walk qualifying_def by (auto simp: soup1_tokens) (simp_all add: text_eval)

section \<open>The run on the sample document\<close>

lemma soup1_kept0: "kept (split 32 (clean (ascii ''hola sol''))) {} = {ascii ''hola'', ascii ''sol''}"
  by (auto simp: kept_def text_eval)

lemma soup1_kept1:
  "kept (split 32 (clean (ascii ''Casa, perro''))) {ascii ''hola'', ascii ''sol''} = {ascii ''perro''}"
  by (auto simp: kept_def text_eval)

lemma soup1_clean: "clean (ascii ''hola sol'') \<noteq> []" "clean (ascii ''Casa, perro'') \<noteq> []"
  by (simp_all add: text_eval)

lemma soup1_first:
  assumes "all_words st = {}"
  shows "fst (parse (\<lambda>u. Some soup1) url n [l0, l1] st) = Inr [{ascii ''hola'', ascii ''sol''}, {ascii ''perro''}]"
proof -
  let ?p0 = "start_frame soup1 0 n [l0, l1] st"
  have a: "all_words ?p0 = {}" "length (outputs ?p0) = 2" using assms by simp_all
  obtain e1 p1 where 1: "process_cell (ascii ''S'') (ascii ''T'') 0 (ascii ''hola sol'') ?p0 = (e1, p1)"
    by (cases "process_cell (ascii ''S'') (ascii ''T'') 0 (ascii ''hola sol'') ?p0")
  from 1 have e1: "e1 = None" and w1: "words_in_page_by_level p1 = [{ascii ''hola'', ascii ''sol''}, {}]"
    and a1: "all_words p1 = {ascii ''hola'', ascii ''sol''}" and l1: "length (outputs p1) = 2"
    unfolding process_cell_eq Let_def a soup1_kept0 using soup1_clean(1) by auto
  obtain e2 p2 where 2: "process_cell (ascii ''S'') (ascii ''T'') 1 (ascii ''Casa, perro'') p1 = (e2, p2)"
    by (cases "process_cell (ascii ''S'') (ascii ''T'') 1 (ascii ''Casa, perro'') p1")
  from 2 have e2: "e2 = None" and w2: "words_in_page_by_level p2 = [{ascii ''hola'', ascii ''sol''}, {ascii ''perro''}]"
    unfolding process_cell_eq Let_def a1 l1 w1 soup1_kept1 using soup1_clean(2) by auto
  have "foldE visit_step (walk soup1) ?p0 = (None, p2)"
    unfolding soup1_walk
    by (simp only: foldE.simps visit_step.simps 1 2 e1 e2 prod.case option.case)
  then show ?thesis by (simp add: parse_walk soup1_h1 finish_two w2)
qed


lemma parse_nothing_new:
  assumes "complete_page fetch url" and "fetch url = Some soup"
    and "qualifying (walk soup) \<subseteq> all_words t" and "2 \<le> length levels"
  shows "\<exists>t'. parse fetch url n levels t = (Inr [{}, {}], t') \<and> all_words t' = all_words t
           \<and> words_by_level t' = words_by_level t"
proof -
  from assms(1,2) obtain h1 where h: "soup_find soup ''h1'' = Some h1"
    and w: "NoCell \<notin> set (walk soup)"
    by (auto simp: complete_page_def)
  from assms(4) obtain l0 l1 ls where l: "levels = l0 # l1 # ls"
    by (cases levels; cases "tl levels") auto
  from assms(3) have q: "qualifying (walk soup) \<subseteq> all_words (start_frame soup h1 n levels t)" by simp
  from walk_nothing_new [OF w q]
  have "parse fetch url n levels t = finish soup h1 n levels (start_frame soup h1 n levels t)"
    by (simp add: parse_walk assms(2) h)
  then show ?thesis by (simp add: l finish_two)
qed

lemma soup1_rest:
  assumes "qualifying (walk soup1) \<subseteq> all_words st"
    and "\<forall>(n, levels, url) \<in> set ds. 2 \<le> length levels \<and> set levels \<subseteq> dom (words_by_level st)"
  shows "doc_results (\<lambda>u. Some soup1) ds st = map (\<lambda>(n, levels, url). (levels, [{}, {}])) ds"
  using assms
proof (induction ds arbitrary: st)
  case Nil
  show ?case by simp
next
  case (Cons d ds)
  obtain n levels url where d: "d = (n, levels, url)" by (cases d)
  from Cons.prems(2) d have l: "2 \<le> length levels" and k: "set levels \<subseteq> dom (words_by_level st)"
    by auto
  from parse_nothing_new [where fetch = "\<lambda>u. Some soup1" and url = url, OF soup1_complete _ Cons.prems(1) l, of n]
  obtain st1 where p: "parse (\<lambda>u. Some soup1) url n levels st = (Inr [{}, {}], st1)"
    and a1: "all_words st1 = all_words st" and w1: "words_by_level st1 = words_by_level st"
    by auto
  from update_loop_completes [OF l, of "[{}, {}]" st1] k w1 obtain st2 where
    u: "update_loop [0..<2] levels [{}, {}] st1 = (None, st2)" by auto
  from update_loop_globals [of "[0..<2]" levels "[{}, {}]" st1] u
  have a2: "all_words st2 = all_words st1" and w2: "dom (words_by_level st2) = dom (words_by_level st1)"
    by simp_all
  have "doc_results (\<lambda>u. Some soup1) ds st2 = map (\<lambda>(n, levels, url). (levels, [{}, {}])) ds"
    using Cons.prems by (intro Cons.IH) (auto simp: a1 a2 w1 w2)
  then show ?case by (simp add: d p u)
qed

lemma attributed_Cons:
  "attributed L ((levels, r) # rs) = (\<Union>i \<in> {i \<in> {0, 1}. levels ! i = L}. r ! i) \<union> attributed L rs"
  by (simp add: attributed_def upt_0_2)

lemma attributed_nothing:
  "\<forall>x \<in> set rs. snd x = [{}, {}] \<Longrightarrow> attributed L rs = {}"
  by (auto simp: attributed_def upt_0_2 nth_Cons split: nat.splits)

lemma soup1_results:
  "\<exists>rest. doc_results (\<lambda>u. Some soup1) docs init_state =
      ([ascii ''A1'', ascii ''A2''], [{ascii ''hola'', ascii ''sol''}, {ascii ''perro''}]) # rest
      \<and> (\<forall>x \<in> set rest. snd x = [{}, {}])"
proof -
  obtain url ds where docs: "docs = (8, [ascii ''A1'', ascii ''A2''], url) # ds"
    by (simp add: docs_def)
  let ?lv = "[ascii ''A1'', ascii ''A2'']"
  from docs_levels have dl: "\<forall>(n, levels, url) \<in> set ds. 2 \<le> length levels \<and> set levels \<subseteq> set all_levels"
    unfolding docs by simp
  have l: "2 \<le> length ?lv" by simp
  from parse_completes [OF soup1_complete l, of url 8 init_state]
  obtain r st1 where p: "parse (\<lambda>u. Some soup1) url 8 ?lv init_state = (Inr r, st1)" by blast
  from soup1_first [of init_state url 8 "ascii ''A1''" "ascii ''A2''"] p
  have r: "r = [{ascii ''hola'', ascii ''sol''}, {ascii ''perro''}]"
    by (simp add: init_state_simps)
  from parse_all_words [OF p] have a1: "qualifying (walk soup1) \<subseteq> all_words st1" by simp
  from parse_globals(2) [of "\<lambda>u. Some soup1" url 8 ?lv init_state] p
  have w1: "dom (words_by_level st1) = set all_levels" by (simp add: init_state_simps)
  have "set ?lv \<subseteq> dom (words_by_level st1)" unfolding w1 by (simp add: all_levels_def)
  from update_loop_completes [OF l _ this, of r] r obtain st2 where
    u: "update_loop [0..<2] ?lv r st1 = (None, st2)" by auto
  from update_loop_globals [of "[0..<2]" ?lv r st1] u
  have a2: "all_words st2 = all_words st1" and w2: "dom (words_by_level st2) = set all_levels"
    by (simp_all add: w1)
  from soup1_rest [of st2 ds] a1 dl
  have "doc_results (\<lambda>u. Some soup1) ds st2 = map (\<lambda>(n, levels, url). (levels, [{}, {}])) ds"
    by (simp add: a2 w2)
  then have "doc_results (\<lambda>u. Some soup1) docs init_state =
      (?lv, r) # map (\<lambda>(n, levels, url). (levels, [{}, {}])) ds"
    by (simp add: docs p u)
  moreover have "\<forall>x \<in> set (map (\<lambda>(n, levels, url). (levels, [{}, {}])) ds). snd x = [{}, {}]"
    by auto
  ultimately show ?thesis unfolding r by blast
qed

lemma soup1_attributed:
  "attributed (ascii ''A1'') (doc_results (\<lambda>u. Some soup1) docs init_state) = {ascii ''hola'', ascii ''sol''}"
  "attributed (ascii ''A2'') (doc_results (\<lambda>u. Some soup1) docs init_state) = {ascii ''perro''}"
proof -
  from soup1_results obtain rest where
    d: "doc_results (\<lambda>u. Some soup1) docs init_state =
      ([ascii ''A1'', ascii ''A2''], [{ascii ''hola'', ascii ''sol''}, {ascii ''perro''}]) # rest"
    and e: "\<forall>x \<in> set rest. snd x = [{}, {}]" by blast
  have ne: "ascii ''A1'' \<noteq> ascii ''A2''" by (simp add: ascii_def)
  have i0: "{i \<in> {0, 1}. [ascii ''A1'', ascii ''A2''] ! i = ascii ''A1''} = {0::nat}"
    using ne by auto
  have i1: "{i \<in> {0, 1}. [ascii ''A1'', ascii ''A2''] ! i = ascii ''A2''} = {1::nat}"
    using ne by auto
  show "attributed (ascii ''A1'') (doc_results (\<lambda>u. Some soup1) docs init_state) = {ascii ''hola'', ascii ''sol''}"
    unfolding d attributed_Cons i0 attributed_nothing [OF e] by simp
  show "attributed (ascii ''A2'') (doc_results (\<lambda>u. Some soup1) docs init_state) = {ascii ''perro''}"
    unfolding d attributed_Cons i1 attributed_nothing [OF e] by simp
qed

lemma soup1_levels:
  assumes "main (\<lambda>u. Some soup1) iter = (None, fin)"
  shows "level_words fin (ascii ''A1'') = {ascii ''hola'', ascii ''sol''}"
    and "level_words fin (ascii ''A2'') = {ascii ''perro''}"
proof -
  from main_None [OF assms] obtain st0 where d: "docs_loop (\<lambda>u. Some soup1) docs init_state = (None, st0)"
    and st: "fin = st0\<lparr>console := console st0 @ [ascii ''Total: '' @ str_nat (card (all_words st0)) @ ascii '' words''],
                    files := files st0 @ map (raw_file iter st0) all_levels\<rparr>" by blast
  have lw: "level_words fin L = level_words st0 L" for L by (simp add: st level_words_def)
  from docs_loop_level_words [OF d] soup1_attributed
  show "level_words fin (ascii ''A1'') = {ascii ''hola'', ascii ''sol''}"
    and "level_words fin (ascii ''A2'') = {ascii ''perro''}"
    unfolding lw by (simp_all add: init_state_simps)
qed


lemma iteration_order_sorted: "iteration_order sorted_list_of_set"
  by (simp add: iteration_order_def)

lemma soup1_main: "\<exists>st. main (\<lambda>u. Some soup1) iter = (None, st)"
  by (rule main_completes) (simp add: soup1_complete split: prod.splits)

lemma A1_level: "ascii ''A1'' \<in> set all_levels"
  by (simp add: all_levels_def)

section \<open>The lines of the files of \<open>parse\<close>\<close>

lemma kept_Nil [simp]: "kept [] aw = {}"
  by (simp add: kept_def)

lemma kept_Cons:
  "kept (w # ws) aw = (if w = lower w \<and> w \<notin> aw then insert w (kept ws aw) else kept ws aw)"
  by (auto simp: kept_def)

lemma process_cell_written:
  assumes "process_cell sec sub j raw p = (None, p')" and "i < length (outputs p)"
  shows "sink_written (outputs p' ! i) =
           sink_written (outputs p ! i) @
           (if j = i then replicate (card (kept (cell_tokens raw) (all_words p))) (row_line sec sub) else [])
       \<and> all_words p' = all_words p \<union> kept (cell_tokens raw) (all_words p)
       \<and> length (outputs p') = length (outputs p)"
proof (cases "clean raw = []")
  case True
  with assms(1) have "p' = p" by (simp add: process_cell_eq)
  with True show ?thesis by (simp add: cell_tokens_def)
next
  case False
  then have ct: "cell_tokens raw = split 32 (clean raw)" by (simp add: cell_tokens_def)
  show ?thesis
  proof (cases "j < length (outputs p)")
    case True
    with False assms(1) have p': "p' = p\<lparr>all_words := all_words p \<union> kept (cell_tokens raw) (all_words p),
        outputs := (outputs p)[j := (outputs p ! j)\<lparr>sink_written := sink_written (outputs p ! j) @
           replicate (card (kept (cell_tokens raw) (all_words p))) (row_line sec sub)\<rparr>],
        counts := (counts p)[j := counts p ! j + card (kept (cell_tokens raw) (all_words p))],
        words_in_page_by_level := (words_in_page_by_level p)
           [j := words_in_page_by_level p ! j \<union> kept (cell_tokens raw) (all_words p)]\<rparr>"
      by (simp add: process_cell_eq Let_def ct)
    show ?thesis unfolding p' using True assms(2) by (simp add: nth_list_update)
  next
    case nj: False
    with False assms(1) have k: "kept (cell_tokens raw) (all_words p) = {}" and "p' = p"
      by (auto simp: process_cell_eq Let_def ct split: if_splits)
    with nj assms(2) show ?thesis by auto
  qed
qed

lemma walk_written:
  "foldE visit_step vs p = (None, p') \<Longrightarrow> i < length (outputs p) \<Longrightarrow>
   sink_written (outputs p' ! i) = sink_written (outputs p ! i) @ rows_of vs (all_words p) i"
proof (induction vs arbitrary: p)
  case Nil
  then show ?case by simp
next
  case (Cons v vs)
  from Cons.prems(1) obtain p1 where 1: "visit_step v p = (None, p1)" and 2: "foldE visit_step vs p1 = (None, p')"
    by (auto split: prod.splits option.splits)
  from 1 obtain sec sub j raw where v: "v = Cell sec sub j raw" by (cases v) auto
  from 1 have pc: "process_cell sec sub j raw p = (None, p1)" by (simp add: v)
  note w = process_cell_written [OF pc Cons.prems(2)]
  from w Cons.prems(2) have l: "i < length (outputs p1)" by simp
  from Cons.IH [OF 2 l] w show ?case by (simp add: v)
qed


lemma walk_unfold:
  "walk soup =
     concat (map (\<lambda>s. concat (map (\<lambda>h. concat (map (\<lambda>r.
         cell_visits soup (strip (tag_text (soup ! s))) (strip (tag_text (soup ! h))) [0..<2] r)
       (visited soup ''tr'' (find_next soup h ''tr'') (find_next_sibling soup h ''h3''))))
      (visited soup ''h3'' (find_next soup s ''h3'') (find_next_sibling soup s ''h2''))))
     (visited soup ''h2'' (soup_find soup ''h2'') None))"
proof -
  have a: "subsection_walk soup sec = (\<lambda>h. concat (map (\<lambda>r.
         cell_visits soup sec (strip (tag_text (soup ! h))) [0..<2] r)
       (visited soup ''tr'' (find_next soup h ''tr'') (find_next_sibling soup h ''h3''))))" for sec
    by (rule ext) (simp add: subsection_walk_def)
  have b: "section_walk soup = (\<lambda>s. concat (map (subsection_walk soup (strip (tag_text (soup ! s))))
      (visited soup ''h3'' (find_next soup s ''h3'') (find_next_sibling soup s ''h2''))))"
    by (rule ext) (simp add: section_walk_def)
  show ?thesis unfolding walk_def b a ..
qed

lemma first_from_holds:
  "first_from P ts k = Some j \<Longrightarrow> P (ts ! (j - k))"
proof (induction ts arbitrary: k)
  case Nil
  then show ?case by simp
next
  case (Cons t ts)
  show ?case
  proof (cases "P t")
    case True
    with Cons.prems show ?thesis by simp
  next
    case False
    with Cons.prems have f: "first_from P ts (Suc k) = Some j" by simp
    from first_from_bounds [OF f] have "Suc k \<le> j" by simp
    then have "j - k = Suc (j - Suc k)" by simp
    with Cons.IH [OF f] show ?thesis by simp
  qed
qed

lemma find_next_name:
  "find_next soup el name = Some j \<Longrightarrow> tag_name (soup ! j) = name"
proof -
  assume a: "find_next soup el name = Some j"
  from find_next_bounds [OF a] have b: "el < j" "j < length soup" by simp_all
  from a have "tag_name (drop (Suc el) soup ! (j - Suc el)) = name"
    unfolding find_next_def by (rule first_from_holds)
  with b show ?thesis by simp
qed

lemma find_next_sibling_name:
  "find_next_sibling soup el name = Some j \<Longrightarrow> tag_name (soup ! j) = name"
proof -
  assume a: "find_next_sibling soup el name = Some j"
  from find_next_sibling_bounds [OF a] have b: "el < j" "j < length soup" by simp_all
  from a have "tag_name (drop (Suc el) soup ! (j - Suc el)) = name \<and>
      tag_parent (drop (Suc el) soup ! (j - Suc el)) = tag_parent (soup ! el)"
    unfolding find_next_sibling_def by (rule first_from_holds)
  with b show ?thesis by simp
qed

lemma soup_find_name:
  "soup_find soup name = Some j \<Longrightarrow> tag_name (soup ! j) = name"
  unfolding soup_find_def by (drule first_from_holds) simp

lemma visited_name:
  "x \<in> set (visited soup name el bound) \<Longrightarrow> (\<forall>e. el = Some e \<longrightarrow> tag_name (soup ! e) = name) \<Longrightarrow>
   tag_name (soup ! x) = name"
proof (induction soup name el bound rule: visited.induct)
  case (1 soup name el bound)
  show ?case
  proof (cases el)
    case None
    with "1.prems" show ?thesis by simp
  next
    case (Some e)
    show ?thesis
    proof (cases "x = e")
      case True
      with Some "1.prems" show ?thesis by simp
    next
      case False
      with Some "1.prems"(1) have b: "before soup e bound"
        and x: "x \<in> set (visited soup name (find_next_sibling soup e name) bound)"
        by (auto split: if_splits)
      have "\<forall>e'. find_next_sibling soup e name = Some e' \<longrightarrow> tag_name (soup ! e') = name"
        by (auto dest: find_next_sibling_name)
      from "1.IH" [OF Some b x this] show ?thesis .
    qed
  qed
qed

lemma cell_visits_cell:
  "Cell sec sub j raw \<in> set (cell_visits soup sec' sub' js c) \<Longrightarrow>
   sec = sec' \<and> sub = sub' \<and> j \<in> set js \<and>
   (\<exists>c'. tag_name (soup ! c') = ''td'' \<and> raw = tag_text (soup ! c'))"
proof (induction js arbitrary: c)
  case Nil
  then show ?case by simp
next
  case (Cons i js)
  show ?case
  proof (cases "find_next soup c ''td''")
    case None
    with Cons.prems show ?thesis by simp
  next
    case (Some c1)
    from find_next_name [OF Some] have n: "tag_name (soup ! c1) = ''td''" .
    from Cons.prems Some have "Cell sec sub j raw = Cell sec' sub' i (tag_text (soup ! c1)) \<or>
        Cell sec sub j raw \<in> set (cell_visits soup sec' sub' js c1)" by simp
    then show ?thesis
    proof
      assume "Cell sec sub j raw = Cell sec' sub' i (tag_text (soup ! c1))"
      with n show ?thesis by auto
    next
      assume "Cell sec sub j raw \<in> set (cell_visits soup sec' sub' js c1)"
      from Cons.IH [OF this] show ?thesis by auto
    qed
  qed
qed

lemma walk_cell:
  assumes "Cell sec sub j raw \<in> set (walk soup)"
  shows "\<exists>s h c. s \<in> set (visited soup ''h2'' (soup_find soup ''h2'') None) \<and>
           h \<in> set (visited soup ''h3'' (find_next soup s ''h3'') (find_next_sibling soup s ''h2'')) \<and>
           tag_name (soup ! s) = ''h2'' \<and> tag_name (soup ! h) = ''h3'' \<and> tag_name (soup ! c) = ''td'' \<and>
           sec = strip (tag_text (soup ! s)) \<and> sub = strip (tag_text (soup ! h)) \<and>
           raw = tag_text (soup ! c)"
proof -
  from assms obtain s h r where s: "s \<in> set (visited soup ''h2'' (soup_find soup ''h2'') None)"
    and h: "h \<in> set (visited soup ''h3'' (find_next soup s ''h3'') (find_next_sibling soup s ''h2''))"
    and c: "Cell sec sub j raw \<in> set (cell_visits soup (strip (tag_text (soup ! s)))
              (strip (tag_text (soup ! h))) [0..<2] r)"
    unfolding walk_unfold by auto
  have ns: "tag_name (soup ! s) = ''h2''"
    using s by (rule visited_name) (auto dest: soup_find_name)
  have nh: "tag_name (soup ! h) = ''h3''"
    using h by (rule visited_name) (auto dest: find_next_name)
  from cell_visits_cell [OF c] s h ns nh show ?thesis by blast
qed

lemma parse_written:
  assumes "parse fetch url n levels st = (Inr r, st')" and "fetch url = Some soup"
  shows "\<exists>outs. files st' = files st @ outs \<and> length outs = length levels \<and>
           (\<forall>i < length levels. sink_written (outs ! i) = header # rows_of (walk soup) (all_words st) i)"
proof -
  from parse_Inr [OF assms(1)] assms(2) obtain h1 p where
    w: "foldE visit_step (walk soup) (start_frame soup h1 n levels st) = (None, p)"
    and f: "finish soup h1 n levels p = (Inr r, st')" by auto
  let ?p0 = "start_frame soup h1 n levels st"
  from walk_same_frame [of ?p0 "walk soup"] w
  have fp: "files p = files st" and l: "length (outputs p) = length levels"
    by (simp_all add: same_frame_def)
  from finish_state(3) [of soup h1 n levels p] f have fs: "files st' = files st @ outputs p"
    by (simp add: fp)
  have "sink_written (outputs p ! i) = header # rows_of (walk soup) (all_words st) i"
    if i: "i < length levels" for i
  proof -
    from i have "i < length (outputs ?p0)" by simp
    from walk_written [OF w this] have "sink_written (outputs p ! i) =
        sink_written (outputs ?p0 ! i) @ rows_of (walk soup) (all_words st) i" by simp
    moreover have "sink_written (outputs ?p0 ! i) = [header]"
      using i by (simp add: start_frame_def file_write_def file_open_def)
    ultimately show ?thesis by simp
  qed
  with fs l show ?thesis by blast
qed

lemma rows_of_cell:
  "l \<in> set (rows_of vs aw i) \<Longrightarrow> \<exists>sec sub raw. Cell sec sub i raw \<in> set vs \<and> l = row_line sec sub"
proof (induction vs aw i rule: rows_of.induct)
  case (1 aw i)
  then show ?case by simp
next
  case (2 sec sub j raw vs aw i)
  show ?case
  proof (cases "l \<in> set (rows_of vs (aw \<union> kept (cell_tokens raw) aw) i)")
    case True
    from 2(1) [OF True] show ?thesis by auto
  next
    case False
    with 2(2) have "j = i \<and> l = row_line sec sub" by (auto split: if_splits)
    then show ?thesis by auto
  qed
next
  case (3 vs aw i)
  then show ?case by simp
qed

lemma parse_row_headings:
  assumes "parse fetch url n levels st = (Inr r, st')" and "fetch url = Some soup"
    and "i < length levels" and "files st' = files st @ outs"
    and "l \<in> set (tl (sink_written (outs ! i)))"
  shows "\<exists>s h. s \<in> set (visited soup ''h2'' (soup_find soup ''h2'') None) \<and>
           h \<in> set (visited soup ''h3'' (find_next soup s ''h3'') (find_next_sibling soup s ''h2'')) \<and>
           tag_name (soup ! s) = ''h2'' \<and> tag_name (soup ! h) = ''h3'' \<and>
           l = row_line (strip (tag_text (soup ! s))) (strip (tag_text (soup ! h)))"
proof -
  from parse_written [OF assms(1,2)] assms(3) obtain outs0 where
    o: "files st' = files st @ outs0"
    and w: "sink_written (outs0 ! i) = header # rows_of (walk soup) (all_words st) i" by blast
  from o assms(4) have "outs = outs0" by simp
  with w assms(5) have "l \<in> set (rows_of (walk soup) (all_words st) i)" by simp
  from rows_of_cell [OF this] obtain sec sub raw where
    c: "Cell sec sub i raw \<in> set (walk soup)" and l: "l = row_line sec sub" by blast
  from walk_cell [OF c] l show ?thesis by blast
qed

section \<open>The walk of the first sample document\<close>

lemma soup0_h1: "soup_find soup0 ''h1'' = Some 0"
  by (simp add: soup0_def soup_eval)

lemma soup0_walk:
  "walk soup0 =
    [Cell (ascii ''Uno'') (ascii ''Sub a'') 0 (ascii ''hola adi'' @ [243] @ ascii ''s hola''),
     Cell (ascii ''Uno'') (ascii ''Sub a'') 1 (ascii ''Casa, perro''),
     Cell (ascii ''Uno'') (ascii ''Sub b'') 0 (ascii ''el sol''),
     Cell (ascii ''Uno'') (ascii ''Sub b'') 1 (ascii ''12, 3.''),
     Cell (ascii ''Dos'') (ascii ''Sub c'') 0 (ascii ''hola luna''),
     Cell (ascii ''Dos'') (ascii ''Sub c'') 1 (ascii ''la Luna'')]"
  by (simp add: soup0_def soup_eval strip_def isspace_def ascii_def)

lemma soup0_tokens:
  "cell_tokens (ascii ''hola adi'' @ [243] @ ascii ''s hola'') =
     [ascii ''hola'', ascii ''adi'' @ [243] @ ascii ''s'', ascii ''hola'']"
  "cell_tokens (ascii ''Casa, perro'') = [ascii ''Casa'', ascii ''perro'']"
  "cell_tokens (ascii ''el sol'') = [ascii ''el'', ascii ''sol'']"
  "cell_tokens (ascii ''12, 3.'') = []"
  "cell_tokens (ascii ''hola luna'') = [ascii ''hola'', ascii ''luna'']"
  "cell_tokens (ascii ''la Luna'') = [ascii ''la'', ascii ''Luna'']"
  by (simp_all add: cell_tokens_def text_eval)

lemma soup0_rows:
  "rows_of (walk soup0) {} 0 =
     [row_line (ascii ''Uno'') (ascii ''Sub a''), row_line (ascii ''Uno'') (ascii ''Sub a''),
      row_line (ascii ''Uno'') (ascii ''Sub b''), row_line (ascii ''Uno'') (ascii ''Sub b''),
      row_line (ascii ''Dos'') (ascii ''Sub c'')]"
  "rows_of (walk soup0) {} 1 =
     [row_line (ascii ''Uno'') (ascii ''Sub a''), row_line (ascii ''Dos'') (ascii ''Sub c'')]"
  unfolding soup0_walk rows_of.simps soup0_tokens
  by (simp_all add: kept_Cons lower_def lower_cp_def ascii_def card_insert_if)

lemma soup0_complete: "complete_page (\<lambda>u. Some soup0) url"
  by (simp add: complete_page_def soup0_h1 soup0_walk)


section \<open>The loops as nested iterations; documents with nested headings\<close>




















section \<open>The lines written\<close>

lemma word_rows_append:
  "word_rows f \<Longrightarrow> word_rows (f\<lparr>sink_written := sink_written f @ replicate k (row_line sec sub)\<rparr>)"
  unfolding word_rows_def
proof (elim exE conjE)
  fix rows
  assume 1: "sink_written f = header # rows"
    and 2: "\<forall>l \<in> set rows. \<exists>section subsection. l = row_line section subsection"
  have "sink_written (f\<lparr>sink_written := sink_written f @ replicate k (row_line sec sub)\<rparr>) =
          header # (rows @ replicate k (row_line sec sub))"
    by (simp add: 1)
  moreover have "\<forall>l \<in> set (rows @ replicate k (row_line sec sub)).
                   \<exists>section subsection. l = row_line section subsection"
  proof
    fix l assume "l \<in> set (rows @ replicate k (row_line sec sub))"
    then have "l \<in> set rows \<or> l = row_line sec sub" by auto
    with 2 show "\<exists>section subsection. l = row_line section subsection" by blast
  qed
  ultimately show "\<exists>rows'. sink_written (f\<lparr>sink_written := sink_written f @ replicate k (row_line sec sub)\<rparr>) = header # rows'
      \<and> (\<forall>l \<in> set rows'. \<exists>section subsection. l = row_line section subsection)"
    by blast
qed

lemma process_cell_outputs:
  "outputs (snd (process_cell sec sub i raw p)) =
     (if clean raw \<noteq> [] \<and> i < length (outputs p)
      then (outputs p)[i := (outputs p ! i)\<lparr>sink_written := sink_written (outputs p ! i) @
             replicate (card (kept (split 32 (clean raw)) (all_words p))) (row_line sec sub)\<rparr>]
      else outputs p)"
  by (simp add: process_cell_eq Let_def)

lemma process_cell_word_rows:
  assumes "\<forall>f \<in> set (outputs p). word_rows f"
  shows "\<forall>f \<in> set (outputs (snd (process_cell sec sub i raw p))). word_rows f"
proof (cases "clean raw \<noteq> [] \<and> i < length (outputs p)")
  case False
  then have "outputs (snd (process_cell sec sub i raw p)) = outputs p"
    unfolding process_cell_outputs by auto
  with assms show ?thesis by simp
next
  case True
  define K where "K = kept (split 32 (clean raw)) (all_words p)"
  have o: "outputs (snd (process_cell sec sub i raw p)) =
      (outputs p)[i := (outputs p ! i)\<lparr>sink_written :=
         sink_written (outputs p ! i) @ replicate (card K) (row_line sec sub)\<rparr>]"
    using True by (simp add: process_cell_outputs K_def)
  from True assms have "word_rows (outputs p ! i)" by simp
  then have n: "word_rows ((outputs p ! i)\<lparr>sink_written :=
         sink_written (outputs p ! i) @ replicate (card K) (row_line sec sub)\<rparr>)"
    by (rule word_rows_append)
  show ?thesis unfolding o
  proof
    fix f
    assume "f \<in> set ((outputs p)[i := (outputs p ! i)\<lparr>sink_written :=
         sink_written (outputs p ! i) @ replicate (card K) (row_line sec sub)\<rparr>])"
    then have "f = (outputs p ! i)\<lparr>sink_written :=
         sink_written (outputs p ! i) @ replicate (card K) (row_line sec sub)\<rparr> \<or> f \<in> set (outputs p)"
      using set_update_subset_insert [of "outputs p" i] by blast
    with n assms show "word_rows f" by blast
  qed
qed

lemma visit_step_word_rows:
  assumes "\<forall>f \<in> set (outputs p). word_rows f"
  shows "\<forall>f \<in> set (outputs (snd (visit_step x p))). word_rows f"
proof (cases x)
  case (Cell sec sub i raw)
  with process_cell_word_rows [OF assms] show ?thesis by simp
next
  case NoCell
  with assms show ?thesis by simp
qed

lemma walk_word_rows:
  "(\<forall>f \<in> set (outputs p). word_rows f) \<Longrightarrow>
   (\<forall>f \<in> set (outputs (snd (foldE visit_step vs p))). word_rows f)"
proof (induction vs arbitrary: p)
  case Nil
  then show ?case by simp
next
  case (Cons v vs)
  obtain e p1 where 1: "visit_step v p = (e, p1)" by (cases "visit_step v p")
  from visit_step_word_rows [OF Cons.prems, of v] 1
  have 2: "\<forall>f \<in> set (outputs p1). word_rows f" by simp
  show ?case
  proof (cases e)
    case None
    with 1 Cons.IH [OF 2] show ?thesis by simp
  next
    case (Some err)
    with 1 2 show ?thesis by simp
  qed
qed

lemma start_frame_word_rows: "\<forall>f \<in> set (outputs (start_frame soup h1 n levels st)). word_rows f"
proof
  fix f assume "f \<in> set (outputs (start_frame soup h1 n levels st))"
  then have "sink_written f = [header]"
    by (auto simp: start_frame_def file_write_def file_open_def)
  then show "word_rows f" by (simp add: word_rows_def)
qed

lemma parse_word_rows:
  assumes "fetch url = Some soup" and "soup_find soup ''h1'' = Some h1"
  shows "\<exists>outs. files (snd (parse fetch url n levels st)) = files st @ outs \<and>
           (\<forall>f \<in> set outs. word_rows f)"
proof -
  obtain e p where w: "foldE visit_step (walk soup) (start_frame soup h1 n levels st) = (e, p)"
    by (cases "foldE visit_step (walk soup) (start_frame soup h1 n levels st)")
  from walk_same_frame [of "start_frame soup h1 n levels st" "walk soup"] w
  have f: "files p = files st" by (simp add: same_frame_def)
  from walk_word_rows [OF start_frame_word_rows, where vs = "walk soup" and soup1 = soup and ?h1.1 = h1
      and n1 = n and levels1 = levels and st1 = st] w
  have "\<forall>f \<in> set (outputs p). word_rows f" by simp
  moreover have "files (snd (parse fetch url n levels st)) = files st @ outputs p"
    using assms w f by (cases e) (simp_all add: parse_walk finish_state)
  ultimately show ?thesis by blast
qed

text \<open>
  Claim C3. The line written for a word is the quoted section name, the quoted
  subsection name and the quoted literal \<open>word\<close>: it does not hold the token. When a
  call of \<open>parse\<close> returns, the file of level index \<open>i\<close> holds the header line and then
  the lines \<open>rows_of\<close> of the walk: for each visited cell of that index, in order, the
  line of the cell's section and subsection, once for each word of the set the loop over
  the cell's tokens keeps. The section and subsection of a visited cell are the stripped
  texts of an \<open>h2\<close> heading the section loop visits and of an \<open>h3\<close> heading the
  subsection loop visits for it, and so every line after the header in the file is the
  line of the stripped texts of such a pair of headings. A cell with a non-empty cleaned text writes its line
  once for each token of its kept set, and every file a call of \<open>parse\<close> leaves,
  returning or not, holds the header line followed by such lines only.
\<close>

theorem rows_carry_literal_word:
  assumes "parse fetch url n levels st = (Inr r, st')" and "fetch url = Some soup"
    and "i < length levels"
  shows "row_line section subsection =
           [34] @ section @ [34, 44, 34] @ subsection @ [34, 44, 34] @ ascii ''word'' @ [34, 10]
       \<and> (\<exists>outs. files st' = files st @ outs \<and> length outs = length levels \<and>
             sink_written (outs ! i) = header # rows_of (walk soup) (all_words st) i)
       \<and> rows_of (Cell sec sub j raw # vs) aw i =
           (if j = i then replicate (card (fst (keep_words (cell_tokens raw) ({}, aw)))) (row_line sec sub)
            else []) @ rows_of vs (snd (keep_words (cell_tokens raw) ({}, aw))) i
       \<and> (\<forall>sec sub j raw. Cell sec sub j raw \<in> set (walk soup) \<longrightarrow>
             (\<exists>s h c. s \<in> set (visited soup ''h2'' (soup_find soup ''h2'') None) \<and>
                h \<in> set (visited soup ''h3'' (find_next soup s ''h3'') (find_next_sibling soup s ''h2'')) \<and>
                tag_name (soup ! s) = ''h2'' \<and> tag_name (soup ! h) = ''h3'' \<and> tag_name (soup ! c) = ''td'' \<and>
                sec = strip (tag_text (soup ! s)) \<and> sub = strip (tag_text (soup ! h)) \<and>
                raw = tag_text (soup ! c)))
       \<and> (\<forall>outs l. files st' = files st @ outs \<and> l \<in> set (tl (sink_written (outs ! i))) \<longrightarrow>
             (\<exists>s h. s \<in> set (visited soup ''h2'' (soup_find soup ''h2'') None) \<and>
                h \<in> set (visited soup ''h3'' (find_next soup s ''h3'') (find_next_sibling soup s ''h2'')) \<and>
                tag_name (soup ! s) = ''h2'' \<and> tag_name (soup ! h) = ''h3'' \<and>
                l = row_line (strip (tag_text (soup ! s))) (strip (tag_text (soup ! h)))))
       \<and> (clean raw \<noteq> [] \<and> k < length (outputs p) \<longrightarrow>
             fst (process_cell section subsection k raw p) = None \<and>
             outputs (snd (process_cell section subsection k raw p)) =
               (outputs p)[k := (outputs p ! k)\<lparr>sink_written := sink_written (outputs p ! k) @
                  replicate (card (fst (keep_words (split 32 (clean raw)) ({}, all_words p))))
                    (row_line section subsection)\<rparr>])
       \<and> (\<exists>outs. files (snd (parse fetch url n' levels' st0)) = files st0 @ outs \<and>
             (\<forall>f \<in> set outs. \<exists>rows. sink_written f = header # rows \<and>
                (\<forall>l \<in> set rows. \<exists>sec sub. l = row_line sec sub)))"
proof -
  have a: "row_line section subsection =
           [34] @ section @ [34, 44, 34] @ subsection @ [34, 44, 34] @ ascii ''word'' @ [34, 10]"
    by (simp add: row_line_def)
  from parse_written [OF assms(1,2)] assms(3)
  have b: "\<exists>outs. files st' = files st @ outs \<and> length outs = length levels \<and>
             sink_written (outs ! i) = header # rows_of (walk soup) (all_words st) i"
    by blast
  have c: "rows_of (Cell sec sub j raw # vs) aw i =
           (if j = i then replicate (card (fst (keep_words (cell_tokens raw) ({}, aw)))) (row_line sec sub)
            else []) @ rows_of vs (snd (keep_words (cell_tokens raw) ({}, aw))) i"
    by (simp add: keep_words_eq)
  have d: "\<forall>sec sub j raw. Cell sec sub j raw \<in> set (walk soup) \<longrightarrow>
             (\<exists>s h c. s \<in> set (visited soup ''h2'' (soup_find soup ''h2'') None) \<and>
                h \<in> set (visited soup ''h3'' (find_next soup s ''h3'') (find_next_sibling soup s ''h2'')) \<and>
                tag_name (soup ! s) = ''h2'' \<and> tag_name (soup ! h) = ''h3'' \<and> tag_name (soup ! c) = ''td'' \<and>
                sec = strip (tag_text (soup ! s)) \<and> sub = strip (tag_text (soup ! h)) \<and>
                raw = tag_text (soup ! c))"
    by (intro allI impI) (rule walk_cell)
  have d2: "\<forall>outs l. files st' = files st @ outs \<and> l \<in> set (tl (sink_written (outs ! i))) \<longrightarrow>
             (\<exists>s h. s \<in> set (visited soup ''h2'' (soup_find soup ''h2'') None) \<and>
                h \<in> set (visited soup ''h3'' (find_next soup s ''h3'') (find_next_sibling soup s ''h2'')) \<and>
                tag_name (soup ! s) = ''h2'' \<and> tag_name (soup ! h) = ''h3'' \<and>
                l = row_line (strip (tag_text (soup ! s))) (strip (tag_text (soup ! h))))"
    by (intro allI impI, elim conjE) (rule parse_row_headings [OF assms])
  have e: "clean raw \<noteq> [] \<and> k < length (outputs p) \<longrightarrow>
             fst (process_cell section subsection k raw p) = None \<and>
             outputs (snd (process_cell section subsection k raw p)) =
               (outputs p)[k := (outputs p ! k)\<lparr>sink_written := sink_written (outputs p ! k) @
                  replicate (card (fst (keep_words (split 32 (clean raw)) ({}, all_words p))))
                    (row_line section subsection)\<rparr>]"
    by (simp add: process_cell_eq Let_def keep_words_eq)
  from parse_Inr [OF assms(1)] assms(2) obtain h1 where h: "soup_find soup ''h1'' = Some h1" by auto
  from parse_word_rows [where fetch = fetch and url = url, OF assms(2) h, of n' levels' st0]
  have f: "\<exists>outs. files (snd (parse fetch url n' levels' st0)) = files st0 @ outs \<and>
             (\<forall>f \<in> set outs. \<exists>rows. sink_written f = header # rows \<and>
                (\<forall>l \<in> set rows. \<exists>sec sub. l = row_line sec sub))"
    unfolding word_rows_def .
  from a b c d d2 e f show ?thesis by (intro conjI)
qed


theorem rows_carry_literal_word_witness:
  "\<exists>r st'. parse (\<lambda>u. Some soup0) [] 8 [ascii ''A1'', ascii ''A2''] init_state = (Inr r, st')
     \<and> 0 < length [ascii ''A1'', ascii ''A2'']
     \<and> length (files st') = 2
     \<and> sink_written (files st' ! 0) =
          [header,
           [34] @ ascii ''Uno'' @ [34, 44, 34] @ ascii ''Sub a'' @ [34, 44, 34] @ ascii ''word'' @ [34, 10],
           [34] @ ascii ''Uno'' @ [34, 44, 34] @ ascii ''Sub a'' @ [34, 44, 34] @ ascii ''word'' @ [34, 10],
           [34] @ ascii ''Uno'' @ [34, 44, 34] @ ascii ''Sub b'' @ [34, 44, 34] @ ascii ''word'' @ [34, 10],
           [34] @ ascii ''Uno'' @ [34, 44, 34] @ ascii ''Sub b'' @ [34, 44, 34] @ ascii ''word'' @ [34, 10],
           [34] @ ascii ''Dos'' @ [34, 44, 34] @ ascii ''Sub c'' @ [34, 44, 34] @ ascii ''word'' @ [34, 10]]
     \<and> sink_written (files st' ! 1) =
          [header,
           [34] @ ascii ''Uno'' @ [34, 44, 34] @ ascii ''Sub a'' @ [34, 44, 34] @ ascii ''word'' @ [34, 10],
           [34] @ ascii ''Dos'' @ [34, 44, 34] @ ascii ''Sub c'' @ [34, 44, 34] @ ascii ''word'' @ [34, 10]]"
proof -
  have l: "2 \<le> length [ascii ''A1'', ascii ''A2'']" by simp
  from parse_completes [OF soup0_complete l, of "[]" 8 init_state]
  obtain r st' where p: "parse (\<lambda>u. Some soup0) [] 8 [ascii ''A1'', ascii ''A2''] init_state = (Inr r, st')"
    by blast
  have f: "(\<lambda>u. Some soup0) [] = Some soup0" by simp
  have i0: "0 < length [ascii ''A1'', ascii ''A2'']" and i1: "1 < length [ascii ''A1'', ascii ''A2'']"
    by simp_all
  have rl: "row_line sec sub = [34] @ sec @ [34, 44, 34] @ sub @ [34, 44, 34] @ ascii ''word'' @ [34, 10]"
    for sec sub
    by (simp add: row_line_def)
  note t0 = rows_carry_literal_word [where fetch = "\<lambda>u. Some soup0" and url = "[]", OF p f i0]
  note t1 = rows_carry_literal_word [where fetch = "\<lambda>u. Some soup0" and url = "[]", OF p f i1]
  from t0 [THEN conjunct2, THEN conjunct1]
  obtain outs where o: "files st' = files init_state @ outs"
    and lo: "length outs = length [ascii ''A1'', ascii ''A2'']"
    and w0: "sink_written (outs ! 0) = header # rows_of (walk soup0) (all_words init_state) 0"
    by blast
  from t1 [THEN conjunct2, THEN conjunct1]
  obtain outs' where o1: "files st' = files init_state @ outs'"
    and w1: "sink_written (outs' ! 1) = header # rows_of (walk soup0) (all_words init_state) 1"
    by blast
  from o have o': "outs = files st'" by (simp add: init_state_simps)
  from o1 have o1': "outs' = files st'" by (simp add: init_state_simps)
  from lo have a: "length (files st') = 2" unfolding o' by simp
  from w0 have b: "sink_written (files st' ! 0) =
          [header,
           [34] @ ascii ''Uno'' @ [34, 44, 34] @ ascii ''Sub a'' @ [34, 44, 34] @ ascii ''word'' @ [34, 10],
           [34] @ ascii ''Uno'' @ [34, 44, 34] @ ascii ''Sub a'' @ [34, 44, 34] @ ascii ''word'' @ [34, 10],
           [34] @ ascii ''Uno'' @ [34, 44, 34] @ ascii ''Sub b'' @ [34, 44, 34] @ ascii ''word'' @ [34, 10],
           [34] @ ascii ''Uno'' @ [34, 44, 34] @ ascii ''Sub b'' @ [34, 44, 34] @ ascii ''word'' @ [34, 10],
           [34] @ ascii ''Dos'' @ [34, 44, 34] @ ascii ''Sub c'' @ [34, 44, 34] @ ascii ''word'' @ [34, 10]]"
    unfolding o' init_state_simps(1) soup0_rows(1) rl by simp
  from w1 have c: "sink_written (files st' ! 1) =
          [header,
           [34] @ ascii ''Uno'' @ [34, 44, 34] @ ascii ''Sub a'' @ [34, 44, 34] @ ascii ''word'' @ [34, 10],
           [34] @ ascii ''Dos'' @ [34, 44, 34] @ ascii ''Sub c'' @ [34, 44, 34] @ ascii ''word'' @ [34, 10]]"
    unfolding o1' init_state_simps(1) soup0_rows(2) rl by simp
  from p i0 a b c show ?thesis by blast
qed

section \<open>The subsections of a section\<close>





section \<open>The vocabulary only grows\<close>

lemma keep_words_mono: "aw \<subseteq> snd (keep_words ws (sw, aw))"
  by (simp add: keep_words_eq)

lemma keep_words_member:
  "w \<in> snd (keep_words ws (sw, aw)) \<longleftrightarrow> w \<in> aw \<or> (w \<in> set ws \<and> w = lower w)"
  by (auto simp: keep_words_eq kept_def)

lemma process_cell_mono: "all_words p \<subseteq> all_words (snd (process_cell sec sub i raw p))"
  using process_cell_same_frame [of p sec sub i raw] by (simp add: same_frame_def)

lemma main_all_words:
  "all_words (snd (main fetch iter)) = all_words (snd (docs_loop fetch docs init_state))"
proof -
  obtain e st0 where d: "docs_loop fetch docs init_state = (e, st0)"
    by (cases "docs_loop fetch docs init_state")
  show ?thesis
  proof (cases e)
    case None
    with d raw_loop_globals [of iter all_levels
        "print (ascii ''Total: '' @ str_nat (card (all_words st0)) @ ascii '' words'') st0"]
    show ?thesis by (simp add: main_def print_def)
  next
    case (Some err)
    with d show ?thesis by (simp add: main_def)
  qed
qed

lemma sol_not_Sol:
  "keep_words [ascii ''sol''] ({}, {ascii ''Sol''}) = ({ascii ''sol''}, {ascii ''sol'', ascii ''Sol''})"
  by (simp add: text_eval)

text \<open>
  Claim C5. \<open>all_words\<close> is empty when the run starts, and no operation of the run
  removes a word from it: the loop over the tokens of a cell, a cell, a call of \<open>parse\<close>
  (whether it returns or raises) and the loop over the documents leave a superset, the
  update of the per-level sets and the last loop leave it as it is. Membership is
  equality of strings: after the loop over some tokens a word is in \<open>all_words\<close> if and
  only if it was there before or is itself one of the tokens and its own lowercase form;
  thus "Sol" in \<open>all_words\<close> does not keep "sol" out.
\<close>

theorem vocabulary_grows:
  "all_words init_state = {}
   \<and> aw \<subseteq> snd (keep_words ws (sw, aw))
   \<and> (w \<in> snd (keep_words ws (sw, aw)) \<longleftrightarrow> w \<in> aw \<or> (w \<in> set ws \<and> w = lower w))
   \<and> keep_words [ascii ''sol''] ({}, {ascii ''Sol''}) = ({ascii ''sol''}, {ascii ''sol'', ascii ''Sol''})
   \<and> all_words p \<subseteq> all_words (snd (process_cell section subsection i raw p))
   \<and> all_words st \<subseteq> all_words (snd (parse fetch url n levels st))
   \<and> all_words (snd (update_loop js levels r st)) = all_words st
   \<and> all_words st \<subseteq> all_words (snd (docs_loop fetch ds st))
   \<and> all_words (snd (raw_loop iter ls st)) = all_words st
   \<and> all_words (snd (main fetch iter)) = all_words (snd (docs_loop fetch docs init_state))"
  using keep_words_mono [of aw ws sw] keep_words_member [of w ws sw aw] sol_not_Sol
    process_cell_mono [of p "section" "subsection" i raw] parse_globals(1) [of st fetch url n levels]
    update_loop_globals [of js levels r st] docs_loop_globals [of st fetch ds]
    raw_loop_globals [of iter ls st] main_all_words [of fetch iter]
  by (simp only: init_state_simps(1) simp_thms)

section \<open>The files of \<open>parse\<close> stay open\<close>

lemma parse_files_closed:
  assumes "fetch url = Some soup" and "soup_find soup ''h1'' = Some h1"
  shows "map sink_closed (files (snd (parse fetch url n levels st))) =
           map sink_closed (files st) @ replicate (length levels) False"
proof -
  from parse_files [where fetch = fetch and url = url, OF assms, of n levels st]
  obtain outs where f: "files (snd (parse fetch url n levels st)) = files st @ outs"
    and l: "length outs = length levels" and c: "\<forall>f \<in> set outs. \<not> sink_closed f" by blast
  from c have "map sink_closed outs = replicate (length outs) False"
    by (induction outs) simp_all
  with f l show ?thesis by simp
qed

lemma soup2_raises:
  "fst (parse (\<lambda>u. Some soup2) url n levels st) = Inl AttributeError"
  by (simp add: parse_walk soup2_h1 soup2_walk)

lemma soup1_returns:
  "\<exists>r. fst (parse (\<lambda>u. Some soup1) url n [ascii ''A1'', ascii ''A2''] st) = Inr r"
proof -
  have "2 \<le> length [ascii ''A1'', ascii ''A2'']" by simp
  from parse_completes [OF soup1_complete this, of url n st] show ?thesis by auto
qed

text \<open>
  Claim C7 says that the two files of a call of \<open>parse\<close> are closed when the call ends,
  by return or by exception. \<open>parse\<close> opens them and calls no \<open>close\<close>: on the first
  sample document the call returns, on the second it raises AttributeError, and in
  both cases the two file objects it leaves are not closed. The last loop of the module
  does close each file it opens.
\<close>

theorem parse_never_closes:
  "(\<exists>r. fst (parse (\<lambda>u. Some soup1) [] 8 [ascii ''A1'', ascii ''A2''] init_state) = Inr r)
   \<and> map sink_closed (files (snd (parse (\<lambda>u. Some soup1) [] 8 [ascii ''A1'', ascii ''A2''] init_state))) =
       [False, False]
   \<and> fst (parse (\<lambda>u. Some soup2) [] 8 [ascii ''A1'', ascii ''A2''] init_state) = Inl AttributeError
   \<and> map sink_closed (files (snd (parse (\<lambda>u. Some soup2) [] 8 [ascii ''A1'', ascii ''A2''] init_state))) =
       [False, False]
   \<and> sink_closed (raw_file iter st level)"
proof -
  have 1: "map sink_closed (files (snd (parse (\<lambda>u. Some soup1) [] 8 [ascii ''A1'', ascii ''A2''] init_state))) =
       [False, False]"
    using parse_files_closed [where fetch = "\<lambda>u. Some soup1" and url = "[]", OF _ soup1_h1,
        of 8 "[ascii ''A1'', ascii ''A2'']" init_state]
    by (simp add: init_state_simps numeral_2_eq_2)
  have 2: "map sink_closed (files (snd (parse (\<lambda>u. Some soup2) [] 8 [ascii ''A1'', ascii ''A2''] init_state))) =
       [False, False]"
    using parse_files_closed [where fetch = "\<lambda>u. Some soup2" and url = "[]", OF _ soup2_h1,
        of 8 "[ascii ''A1'', ascii ''A2'']" init_state]
    by (simp add: init_state_simps numeral_2_eq_2)
  have 3: "sink_closed (raw_file iter st level)" by (simp add: raw_file_def)
  from soup1_returns [of "[]" 8 init_state] 1 soup2_raises [of "[]" 8 "[ascii ''A1'', ascii ''A2'']" init_state] 2 3
  show ?thesis by blast
qed

section \<open>Parsing twice\<close>

text \<open>
  Claim C4. When a call of \<open>parse\<close> has returned, a second call on the same document,
  in any state whose \<open>all_words\<close> holds the outcome of the first, returns two empty
  sets and leaves \<open>all_words\<close> as it is. After a loop over any list of documents that
  ends without exception, \<open>all_words\<close> is what it was before together with the tokens
  of the visited cells that are their own lowercase form; from an empty start its size
  is the number of these distinct tokens, however often cells and documents repeat them.
\<close>

theorem dedup_idempotent:
  assumes "parse fetch url n levels st = (Inr r, st1)" and "all_words st1 \<subseteq> all_words t"
    and "docs_loop fetch ds s = (None, s')"
  shows "(\<exists>t'. parse fetch url n levels t = (Inr [{}, {}], t') \<and> all_words t' = all_words t)
       \<and> all_words s' = all_words s \<union> (\<Union>d \<in> set ds. doc_qualifying fetch d)
       \<and> (all_words s = {} \<longrightarrow> card (all_words s') = card (\<Union>d \<in> set ds. doc_qualifying fetch d))"
proof -
  from parse_again [OF assms(1,2)]
  have a: "\<exists>t'. parse fetch url n levels t = (Inr [{}, {}], t') \<and> all_words t' = all_words t"
    by blast
  note b = docs_loop_qualifying [OF assms(3)]
  from a b show ?thesis by simp
qed

lemma doc1_loop: "\<exists>s'. docs_loop (\<lambda>u. Some soup1) [doc1, doc1] init_state = (None, s')"
  by (rule docs_loop_completes)
     (simp add: doc1_def init_state_simps all_levels_def soup1_complete)

lemma doc1_qualifying:
  "doc_qualifying (\<lambda>u. Some soup1) doc1 = {ascii ''hola'', ascii ''sol'', ascii ''perro''}"
  by (simp add: doc_qualifying_def doc1_def soup1_qualifying)

lemma three_words: "card {ascii ''hola'', ascii ''sol'', ascii ''perro''} = 3"
  by (simp add: text_eval)

theorem dedup_idempotent_witness:
  "\<exists>r st1 s'. parse (\<lambda>u. Some soup1) [] 8 [ascii ''A1'', ascii ''A2''] init_state = (Inr r, st1)
     \<and> all_words st1 \<subseteq> all_words st1
     \<and> docs_loop (\<lambda>u. Some soup1) [doc1, doc1] init_state = (None, s')
     \<and> (\<exists>t'. parse (\<lambda>u. Some soup1) [] 8 [ascii ''A1'', ascii ''A2''] st1 = (Inr [{}, {}], t')
            \<and> all_words t' = all_words st1)
     \<and> all_words s' = {ascii ''hola'', ascii ''sol'', ascii ''perro''}
     \<and> card (all_words s') = 3"
proof -
  have "2 \<le> length [ascii ''A1'', ascii ''A2'']" by simp
  from parse_completes [OF soup1_complete this, of "[]" 8 init_state]
  obtain r st1 where p: "parse (\<lambda>u. Some soup1) [] 8 [ascii ''A1'', ascii ''A2''] init_state = (Inr r, st1)"
    by blast
  from doc1_loop obtain s' where d: "docs_loop (\<lambda>u. Some soup1) [doc1, doc1] init_state = (None, s')"
    by blast
  have s: "all_words st1 \<subseteq> all_words st1" by simp
  note t = dedup_idempotent [OF p s d]
  from t have 1: "\<exists>t'. parse (\<lambda>u. Some soup1) [] 8 [ascii ''A1'', ascii ''A2''] st1 = (Inr [{}, {}], t')
            \<and> all_words t' = all_words st1"
    by (rule conjunct1)
  from t have "all_words s' = all_words init_state \<union> (\<Union>d \<in> set [doc1, doc1]. doc_qualifying (\<lambda>u. Some soup1) d)"
    by blast
  then have 2: "all_words s' = {ascii ''hola'', ascii ''sol'', ascii ''perro''}"
    by (simp add: init_state_simps doc1_qualifying)
  have 3: "card (all_words s') = 3" unfolding 2 by (rule three_words)
  from p s d 1 2 3
  have "parse (\<lambda>u. Some soup1) [] 8 [ascii ''A1'', ascii ''A2''] init_state = (Inr r, st1)
     \<and> all_words st1 \<subseteq> all_words st1
     \<and> docs_loop (\<lambda>u. Some soup1) [doc1, doc1] init_state = (None, s')
     \<and> (\<exists>t'. parse (\<lambda>u. Some soup1) [] 8 [ascii ''A1'', ascii ''A2''] st1 = (Inr [{}, {}], t')
            \<and> all_words t' = all_words st1)
     \<and> all_words s' = {ascii ''hola'', ascii ''sol'', ascii ''perro''}
     \<and> card (all_words s') = 3"
    by (intro conjI)
  then show ?thesis by (intro exI)
qed

section \<open>The consolidated files\<close>

lemma join_Cons: "ws \<noteq> [] \<Longrightarrow> join sep (w # ws) = w @ sep @ join sep ws"
  by (cases ws) simp_all

lemma split_append_sep:
  "sep \<notin> set w \<Longrightarrow> split sep (w @ sep # s) = w # split sep s"
proof (induction w)
  case Nil
  show ?case by simp
next
  case (Cons c w)
  then show ?case by simp
qed

lemma split_no_sep: "sep \<notin> set w \<Longrightarrow> split sep w = [w]"
  by (induction w) auto

lemma split_join:
  "ws \<noteq> [] \<Longrightarrow> \<forall>w \<in> set ws. sep \<notin> set w \<Longrightarrow> split sep (join [sep] ws) = ws"
proof (induction ws)
  case Nil
  then show ?case by simp
next
  case (Cons w ws)
  show ?case
  proof (cases "ws = []")
    case True
    with Cons.prems show ?thesis by (simp add: split_no_sep)
  next
    case False
    with Cons.prems Cons.IH have "split sep (join [sep] ws) = ws" by simp
    with False Cons.prems show ?thesis by (simp add: join_Cons split_append_sep)
  qed
qed

lemma newline_not_spanish: "\<not> spanish_letter 10"
  by (simp add: spanish_letter_def)

lemma docs_loop_spanish:
  assumes "docs_loop fetch ds st = (None, st')" and "w \<in> all_words st'" and "w \<notin> all_words st"
  shows "w \<noteq> [] \<and> (\<forall>c \<in> set w. spanish_letter c)"
proof -
  from docs_loop_qualifying [OF assms(1)] assms(2,3)
  obtain d where "w \<in> doc_qualifying fetch d" by auto
  then show ?thesis
    by (auto simp: doc_qualifying_def split: prod.splits option.splits dest: qualifying_spanish)
qed

lemma docs_loop_finite:
  "docs_loop fetch ds st = (None, st') \<Longrightarrow> finite (all_words st) \<Longrightarrow> finite (all_words st')"
proof -
  assume a: "docs_loop fetch ds st = (None, st')" and f: "finite (all_words st)"
  have "finite (doc_qualifying fetch d)" for d
    by (simp add: doc_qualifying_def qualifying_def split: prod.splits option.splits)
  with docs_loop_qualifying [OF a] f show ?thesis by simp
qed

text \<open>
  Claim C6. When the run ends without exception, then for each of the six levels the
  file of that level is among the files of the run, closed, and holds one string: the
  words attributed to the level, joined by newlines, nothing before and nothing after.
  These words are exactly the union of the sets that the calls of \<open>parse\<close> returned for
  that level, each word once; no word is empty or holds a newline, so that splitting
  the file at newlines gives the words back.
\<close>

theorem consolidated_files:
  assumes "iteration_order iter" and "main fetch iter = (None, st)" and "level \<in> set all_levels"
  shows "\<lparr>sink_name = level @ ascii ''_all_raw.csv'', sink_closed = True,
           sink_written = [join [10] (iter (attributed level (doc_results fetch docs init_state)))]\<rparr>
           \<in> set (files st)
       \<and> set (iter (attributed level (doc_results fetch docs init_state))) =
           attributed level (doc_results fetch docs init_state)
       \<and> distinct (iter (attributed level (doc_results fetch docs init_state)))
       \<and> (\<forall>w \<in> attributed level (doc_results fetch docs init_state). w \<noteq> [] \<and> 10 \<notin> set w)
       \<and> (attributed level (doc_results fetch docs init_state) \<noteq> {} \<longrightarrow>
            split 10 (join [10] (iter (attributed level (doc_results fetch docs init_state)))) =
              iter (attributed level (doc_results fetch docs init_state)))
       \<and> level_words st level = attributed level (doc_results fetch docs init_state)"
proof -
  let ?W = "attributed level (doc_results fetch docs init_state)"
  from main_None [OF assms(2)] obtain st0 where d: "docs_loop fetch docs init_state = (None, st0)"
    and st: "st = st0\<lparr>console := console st0 @ [ascii ''Total: '' @ str_nat (card (all_words st0)) @ ascii '' words''],
                    files := files st0 @ map (raw_file iter st0) all_levels\<rparr>" by blast
  from docs_loop_level_words [OF d, of level] have lw0: "level_words st0 level = ?W"
    by (simp add: init_state_simps)
  have lw: "level_words st level = ?W" unfolding st using lw0 by (simp add: level_words_def)
  from docs_loop_run_inv [OF init_run_inv, of fetch docs] d have inv: "run_inv st0" by simp
  then have fin: "finite ?W" and sub: "?W \<subseteq> all_words st0"
    unfolding run_inv_def lw0 [symmetric] by simp_all
  from assms(1) fin have it: "set (iter ?W) = ?W" "distinct (iter ?W)"
    by (simp_all add: iteration_order_def)
  have "raw_file iter st0 level \<in> set (files st)"
    unfolding st using assms(3) by simp
  then have f: "\<lparr>sink_name = level @ ascii ''_all_raw.csv'', sink_closed = True,
           sink_written = [join [10] (iter ?W)]\<rparr> \<in> set (files st)"
    by (simp add: raw_file_def lw0)
  have sp: "w \<noteq> [] \<and> 10 \<notin> set w" if "w \<in> ?W" for w
  proof -
    from that sub have "w \<in> all_words st0" by blast
    from docs_loop_spanish [OF d this] have "w \<noteq> [] \<and> (\<forall>c \<in> set w. spanish_letter c)"
      by (simp add: init_state_simps)
    with newline_not_spanish show ?thesis by blast
  qed
  have sj: "?W \<noteq> {} \<longrightarrow> split 10 (join [10] (iter ?W)) = iter ?W"
  proof
    assume "?W \<noteq> {}"
    with it(1) have "iter ?W \<noteq> []" by auto
    moreover have "\<forall>w \<in> set (iter ?W). 10 \<notin> set w" using sp it(1) by simp
    ultimately show "split 10 (join [10] (iter ?W)) = iter ?W" by (rule split_join)
  qed
  from f it sp sj lw show ?thesis by blast
qed

theorem consolidated_files_witness:
  "iteration_order sorted_list_of_set \<and> ascii ''A1'' \<in> set all_levels
   \<and> (\<exists>st. main (\<lambda>u. Some soup1) sorted_list_of_set = (None, st)
        \<and> \<lparr>sink_name = ascii ''A1'' @ ascii ''_all_raw.csv'', sink_closed = True,
            sink_written = [join [10] (sorted_list_of_set {ascii ''hola'', ascii ''sol''})]\<rparr>
            \<in> set (files st)
        \<and> level_words st (ascii ''A1'') = {ascii ''hola'', ascii ''sol''})
   \<and> split 10 (join [10] (sorted_list_of_set {ascii ''hola'', ascii ''sol''})) =
       sorted_list_of_set {ascii ''hola'', ascii ''sol''}"
proof -
  from soup1_main [of sorted_list_of_set] obtain st where
    m: "main (\<lambda>u. Some soup1) sorted_list_of_set = (None, st)" by blast
  note t = consolidated_files [OF iteration_order_sorted m A1_level]
  from t have 1: "\<lparr>sink_name = ascii ''A1'' @ ascii ''_all_raw.csv'', sink_closed = True,
            sink_written = [join [10] (sorted_list_of_set {ascii ''hola'', ascii ''sol''})]\<rparr>
            \<in> set (files st)"
    unfolding soup1_attributed by (rule conjunct1)
  from t have 2: "level_words st (ascii ''A1'') = {ascii ''hola'', ascii ''sol''}"
    unfolding soup1_attributed by blast
  have ne: "{ascii ''hola'', ascii ''sol''} \<noteq> ({} :: ustring set)" by simp
  from t have "{ascii ''hola'', ascii ''sol''} \<noteq> ({} :: ustring set) \<longrightarrow>
      split 10 (join [10] (sorted_list_of_set {ascii ''hola'', ascii ''sol''})) =
        sorted_list_of_set {ascii ''hola'', ascii ''sol''}"
    unfolding soup1_attributed by blast
  with ne have 3: "split 10 (join [10] (sorted_list_of_set {ascii ''hola'', ascii ''sol''})) =
        sorted_list_of_set {ascii ''hola'', ascii ''sol''}"
    by (rule rev_mp)
  from m 1 2 have "\<exists>st. main (\<lambda>u. Some soup1) sorted_list_of_set = (None, st)
        \<and> \<lparr>sink_name = ascii ''A1'' @ ascii ''_all_raw.csv'', sink_closed = True,
            sink_written = [join [10] (sorted_list_of_set {ascii ''hola'', ascii ''sol''})]\<rparr>
            \<in> set (files st)
        \<and> level_words st (ascii ''A1'') = {ascii ''hola'', ascii ''sol''}"
    by (intro exI conjI)
  with iteration_order_sorted A1_level 3 show ?thesis by (intro conjI)
qed

section \<open>The levels partition the vocabulary\<close>

lemma run_inv_cong:
  "all_words a = all_words b \<Longrightarrow> words_by_level a = words_by_level b \<Longrightarrow> run_inv a = run_inv b"
  by (simp add: run_inv_def level_words_def)

lemma walk_run_inv:
  assumes "run_inv st"
  shows "run_inv (leave (snd (foldE visit_step vs (start_frame soup h1 n levels st))))"
proof -
  let ?q = "leave (snd (foldE visit_step vs (start_frame soup h1 n levels st)))"
  from walk_same_frame [of "start_frame soup h1 n levels st" vs]
  have a: "all_words st \<subseteq> all_words (snd (foldE visit_step vs (start_frame soup h1 n levels st)))"
    and w: "words_by_level (snd (foldE visit_step vs (start_frame soup h1 n levels st))) = words_by_level st"
    by (simp_all add: same_frame_def)
  have lw: "level_words ?q L = level_words st L" for L by (simp add: level_words_def w)
  have aw: "all_words st \<subseteq> all_words ?q" using a by simp
  from assms aw show ?thesis unfolding run_inv_def lw by blast
qed

lemma main_run_inv: "run_inv (snd (main fetch iter))"
proof -
  obtain e st0 where d: "docs_loop fetch docs init_state = (e, st0)"
    by (cases "docs_loop fetch docs init_state")
  from docs_loop_run_inv [OF init_run_inv, of fetch docs] d have i: "run_inv st0" by simp
  show ?thesis
  proof (cases e)
    case (Some err)
    with d i show ?thesis by (simp add: main_def)
  next
    case None
    let ?p = "print (ascii ''Total: '' @ str_nat (card (all_words st0)) @ ascii '' words'') st0"
    from raw_loop_globals [of iter all_levels ?p]
    have "run_inv (snd (raw_loop iter all_levels ?p)) = run_inv st0"
      by (intro run_inv_cong) (simp_all add: print_def)
    with d None i show ?thesis by (simp add: main_def)
  qed
qed

lemma distinct_all_levels: "distinct all_levels"
  by (simp add: all_levels_def ascii_def)

lemma level_words_outside:
  "dom (words_by_level st) = set all_levels \<Longrightarrow> L \<notin> set all_levels \<Longrightarrow> level_words st L = {}"
  by (auto simp: level_words_def split: option.splits)

lemma main_partition:
  assumes "main fetch iter = (None, fin)"
  shows "all_words fin = (\<Union>L \<in> set all_levels. level_words fin L)"
    and "card (all_words fin) = (\<Sum>L\<leftarrow>all_levels. card (level_words fin L))"
    and "last (console fin) = ascii ''Total: '' @ str_nat (card (all_words fin)) @ ascii '' words''"
    and "L \<in> set all_levels \<Longrightarrow> raw_file iter fin L \<in> set (files fin)"
proof -
  from main_None [OF assms] obtain st0 where d: "docs_loop fetch docs init_state = (None, st0)"
    and st: "fin = st0\<lparr>console := console st0 @ [ascii ''Total: '' @ str_nat (card (all_words st0)) @ ascii '' words''],
                    files := files st0 @ map (raw_file iter st0) all_levels\<rparr>" by blast
  have lw: "level_words fin L = level_words st0 L" for L by (simp add: st level_words_def)
  have aw: "all_words fin = all_words st0" by (simp add: st)
  from docs_loop_globals [of init_state fetch docs] d
  have dm: "dom (words_by_level st0) = set all_levels" by (simp add: init_state_simps)
  have "all_words init_state = (\<Union>L. level_words init_state L)" by (simp add: init_state_simps)
  from docs_loop_covered [OF d this] have c: "all_words st0 = (\<Union>L. level_words st0 L)" .
  have "(\<Union>L. level_words st0 L) = (\<Union>L \<in> set all_levels. level_words st0 L)"
    using level_words_outside [OF dm] by blast
  with c show 1: "all_words fin = (\<Union>L \<in> set all_levels. level_words fin L)"
    unfolding lw aw by simp
  from docs_loop_run_inv [OF init_run_inv, of fetch docs] d have i: "run_inv st0" by simp
  have "card (\<Union>L \<in> set all_levels. level_words st0 L) = (\<Sum>L \<in> set all_levels. card (level_words st0 L))"
    using i by (intro card_UN_disjoint) (auto simp: run_inv_def)
  also have "\<dots> = (\<Sum>L\<leftarrow>all_levels. card (level_words st0 L))"
    using distinct_all_levels by (simp add: sum_list_distinct_conv_sum_set)
  finally show "card (all_words fin) = (\<Sum>L\<leftarrow>all_levels. card (level_words fin L))"
    using 1 unfolding lw aw by simp
  show "last (console fin) = ascii ''Total: '' @ str_nat (card (all_words fin)) @ ascii '' words''"
    by (simp add: st)
  show "raw_file iter fin L \<in> set (files fin)" if "L \<in> set all_levels"
    using that by (simp add: st)
qed

lemma parse_open:
  assumes "\<forall>f \<in> set (files st). \<not> sink_closed f"
  shows "\<forall>f \<in> set (files (snd (parse fetch url n levels st))). \<not> sink_closed f"
proof (cases "fetch url = None \<or> (\<exists>soup. fetch url = Some soup \<and> soup_find soup ''h1'' = None)")
  case True
  from parse_files_other [where fetch = fetch and url = url, OF True] assms show ?thesis by simp
next
  case False
  then obtain soup h1 where s: "fetch url = Some soup" and h: "soup_find soup ''h1'' = Some h1"
    by auto
  from parse_files [where fetch = fetch and url = url, OF s h, of n levels st]
  obtain outs where f: "files (snd (parse fetch url n levels st)) = files st @ outs"
    and c: "\<forall>f \<in> set outs. \<not> sink_closed f" by blast
  from assms c show ?thesis unfolding f by auto
qed

lemma docs_loop_open:
  "\<forall>f \<in> set (files st). \<not> sink_closed f \<Longrightarrow>
   \<forall>f \<in> set (files (snd (docs_loop fetch ds st))). \<not> sink_closed f"
proof (induction ds arbitrary: st)
  case Nil
  then show ?case by simp
next
  case (Cons d ds)
  obtain n levels url where d: "d = (n, levels, url)" by (cases d)
  obtain x st1 where p: "parse fetch url n levels st = (x, st1)" by (cases "parse fetch url n levels st")
  from parse_open [OF Cons.prems, of fetch url n levels] p
  have 1: "\<forall>f \<in> set (files st1). \<not> sink_closed f" by simp
  show ?case
  proof (cases x)
    case (Inl e)
    with d p 1 show ?thesis by simp
  next
    case (Inr r)
    obtain y st2 where u: "update_loop [0..<2] levels r st1 = (y, st2)"
      by (cases "update_loop [0..<2] levels r st1")
    from update_loop_globals [of "[0..<2]" levels r st1] u
    have "files st2 = files st1" by simp
    with 1 have 2: "\<forall>f \<in> set (files st2). \<not> sink_closed f" by simp
    show ?thesis
    proof (cases y)
      case (Some e)
      with d p Inr u 2 show ?thesis by simp
    next
      case None
      from Cons.IH [OF 2] d p Inr u None show ?thesis by simp
    qed
  qed
qed

lemma main_closed_files:
  assumes "main fetch iter = (None, fin)" and "f \<in> set (files fin)" and "sink_closed f"
  shows "\<exists>L \<in> set all_levels. f = raw_file iter fin L"
proof -
  from main_None [OF assms(1)] obtain st0 where d: "docs_loop fetch docs init_state = (None, st0)"
    and st: "fin = st0\<lparr>console := console st0 @ [ascii ''Total: '' @ str_nat (card (all_words st0)) @ ascii '' words''],
                    files := files st0 @ map (raw_file iter st0) all_levels\<rparr>" by blast
  have "\<forall>f \<in> set (files init_state). \<not> sink_closed f" by (simp add: init_state_simps)
  from docs_loop_open [OF this, of fetch docs] d
  have "\<forall>f \<in> set (files st0). \<not> sink_closed f" by simp
  with assms(2,3) have "f \<in> set (map (raw_file iter st0) all_levels)"
    unfolding st by auto
  then obtain L where "L \<in> set all_levels" "f = raw_file iter st0 L" by auto
  moreover have "raw_file iter fin L = raw_file iter st0 L" unfolding st by simp
  ultimately have "L \<in> set all_levels \<and> f = raw_file iter fin L" by simp
  then show ?thesis by blast
qed

lemma main_words:
  assumes "main fetch iter = (None, fin)" and "w \<in> all_words fin"
  shows "w \<noteq> []" and "10 \<notin> set w"
proof -
  from main_None [OF assms(1)] obtain st0 where d: "docs_loop fetch docs init_state = (None, st0)"
    and st: "fin = st0\<lparr>console := console st0 @ [ascii ''Total: '' @ str_nat (card (all_words st0)) @ ascii '' words''],
                    files := files st0 @ map (raw_file iter st0) all_levels\<rparr>" by blast
  from assms(2) have "w \<in> all_words st0" by (simp add: st)
  moreover have "w \<notin> all_words init_state" by (simp add: init_state_simps)
  ultimately have s: "w \<noteq> [] \<and> (\<forall>c \<in> set w. spanish_letter c)"
    by (rule docs_loop_spanish [OF d])
  then show "w \<noteq> []" by simp
  from s newline_not_spanish show "10 \<notin> set w" by auto
qed

lemma main_file_lines:
  assumes "iteration_order iter" and "main fetch iter = (None, fin)"
  shows "distinct (split 10 (join [10] (iter (level_words fin L))))"
    and "level_words fin L \<noteq> {} \<Longrightarrow>
           split 10 (join [10] (iter (level_words fin L))) = iter (level_words fin L)"
    and "w \<in> all_words fin \<Longrightarrow>
           w \<in> set (split 10 (join [10] (iter (level_words fin L)))) \<longleftrightarrow> w \<in> level_words fin L"
proof -
  from main_run_inv [of fetch iter] assms(2) have i: "run_inv fin" by simp
  then have fin: "finite (level_words fin L)" and sub: "level_words fin L \<subseteq> all_words fin"
    unfolding run_inv_def by blast+
  from assms(1) fin have it: "set (iter (level_words fin L)) = level_words fin L"
    "distinct (iter (level_words fin L))"
    by (simp_all add: iteration_order_def)
  have e: "split 10 (join [10] (iter (level_words fin L))) = iter (level_words fin L)"
    if ne: "level_words fin L \<noteq> {}"
  proof (rule split_join)
    from ne it(1) show "iter (level_words fin L) \<noteq> []" by auto
    show "\<forall>w \<in> set (iter (level_words fin L)). 10 \<notin> set w"
      unfolding it(1) using sub main_words(2) [OF assms(2)] by blast
  qed
  have z: "split 10 (join [10] (iter (level_words fin L))) = [[]]" if "level_words fin L = {}"
  proof -
    from that it(1) have "iter (level_words fin L) = []" by simp
    then show ?thesis by simp
  qed
  show "distinct (split 10 (join [10] (iter (level_words fin L))))"
    using e z it(2) by (cases "level_words fin L = {}") simp_all
  show "split 10 (join [10] (iter (level_words fin L))) = iter (level_words fin L)"
    if "level_words fin L \<noteq> {}" using that by (rule e)
  show "w \<in> set (split 10 (join [10] (iter (level_words fin L)))) \<longleftrightarrow> w \<in> level_words fin L"
    if w: "w \<in> all_words fin"
  proof (cases "level_words fin L = {}")
    case True
    from main_words(1) [OF assms(2) w] have "w \<notin> set (split 10 (join [10] (iter (level_words fin L))))"
      unfolding z [OF True] by simp
    then show ?thesis unfolding True by simp
  next
    case False
    show ?thesis unfolding e [OF False] it(1) ..
  qed
qed

lemma raw_file_name:
  "\<lparr>sink_name = L @ ascii ''_all_raw.csv'', sink_closed = True, sink_written = [c]\<rparr> = raw_file iter fin L'
   \<longleftrightarrow> L = L' \<and> c = join [10] (iter (level_words fin L'))"
  by (auto simp: raw_file_def)

lemma main_level_file:
  assumes "main fetch iter = (None, fin)"
  shows "\<lparr>sink_name = L @ ascii ''_all_raw.csv'', sink_closed = True, sink_written = [c]\<rparr> \<in> set (files fin)
     \<longleftrightarrow> L \<in> set all_levels \<and> c = join [10] (iter (level_words fin L))"
proof
  assume f: "\<lparr>sink_name = L @ ascii ''_all_raw.csv'', sink_closed = True, sink_written = [c]\<rparr> \<in> set (files fin)"
  from main_closed_files [OF assms f] obtain L' where "L' \<in> set all_levels"
    and "\<lparr>sink_name = L @ ascii ''_all_raw.csv'', sink_closed = True, sink_written = [c]\<rparr> = raw_file iter fin L'"
    by auto
  then show "L \<in> set all_levels \<and> c = join [10] (iter (level_words fin L))"
    unfolding raw_file_name by simp
next
  assume a: "L \<in> set all_levels \<and> c = join [10] (iter (level_words fin L))"
  with main_partition(4) [OF assms, where L = L] show
    "\<lparr>sink_name = L @ ascii ''_all_raw.csv'', sink_closed = True, sink_written = [c]\<rparr> \<in> set (files fin)"
    by (simp add: raw_file_def)
qed

text \<open>
  Claim C10. The per-level word sets are pairwise disjoint and lie within \<open>all_words\<close>
  (\<open>run_inv\<close>): this holds when the run starts, every stretch of the walk inside a
  call of \<open>parse\<close> keeps it, a call of \<open>parse\<close> keeps it whether it returns or raises,
  each step of the update after a call keeps it, and so it holds after any number of
  documents and when the run ends. When the run ends without
  exception, \<open>all_words\<close> is the union of the six sets, every word of it is in the set
  and in the file of exactly one level, and the total printed last is the sum of the
  sizes of the six sets. The file of a level is read by its content: the closed file
  named after the level holds one string, and the word is one of the lines that
  splitting this string at newlines gives, for exactly one level; the lines of a file
  are distinct, and they are the words of the level when there is one.
\<close>

theorem levels_partition_vocabulary:
  "run_inv init_state
   \<and> (run_inv st \<longrightarrow>
        run_inv (leave (snd (foldE visit_step vs (start_frame soup h1 n levels st)))))
   \<and> (run_inv st \<longrightarrow> run_inv (snd (parse fetch url n levels st)))
   \<and> (run_inv st \<and> parse fetch url n levels st = (Inr r, st') \<and> set js \<subseteq> {0, 1} \<and> distinct js \<longrightarrow>
        run_inv (snd (update_loop js levels r st')))
   \<and> run_inv (snd (docs_loop fetch ds init_state))
   \<and> (\<forall>L1 L2. L1 \<noteq> L2 \<longrightarrow>
         level_words (snd (docs_loop fetch ds init_state)) L1 \<inter>
         level_words (snd (docs_loop fetch ds init_state)) L2 = {})
   \<and> (\<forall>L. level_words (snd (docs_loop fetch ds init_state)) L \<subseteq>
            all_words (snd (docs_loop fetch ds init_state)))
   \<and> run_inv (snd (main fetch iter))
   \<and> (main fetch iter = (None, fin) \<longrightarrow>
        all_words fin = (\<Union>L \<in> set all_levels. level_words fin L)
        \<and> (\<forall>w \<in> all_words fin. \<exists>!L. L \<in> set all_levels \<and> w \<in> level_words fin L)
        \<and> (\<forall>L \<in> set all_levels. raw_file iter fin L \<in> set (files fin))
        \<and> (iteration_order iter \<longrightarrow>
             (\<forall>w \<in> all_words fin. \<exists>!L. L \<in> set all_levels \<and> w \<in> set (iter (level_words fin L))))
        \<and> (iteration_order iter \<longrightarrow>
             (\<forall>w \<in> all_words fin. \<exists>!L. L \<in> set all_levels \<and>
                (\<exists>c. \<lparr>sink_name = L @ ascii ''_all_raw.csv'', sink_closed = True, sink_written = [c]\<rparr>
                        \<in> set (files fin) \<and> w \<in> set (split 10 c)))
             \<and> (\<forall>L c. \<lparr>sink_name = L @ ascii ''_all_raw.csv'', sink_closed = True, sink_written = [c]\<rparr>
                        \<in> set (files fin) \<longrightarrow>
                    L \<in> set all_levels \<and> c = join [10] (iter (level_words fin L)) \<and> distinct (split 10 c)
                    \<and> (level_words fin L \<noteq> {} \<longrightarrow> set (split 10 c) = level_words fin L)))
        \<and> last (console fin) =
            ascii ''Total: '' @ str_nat (\<Sum>L\<leftarrow>all_levels. card (level_words fin L)) @ ascii '' words'')"
proof -
  have a: "run_inv st \<longrightarrow>
        run_inv (leave (snd (foldE visit_step vs (start_frame soup h1 n levels st))))"
    by (simp add: walk_run_inv)
  have b: "run_inv st \<longrightarrow> run_inv (snd (parse fetch url n levels st))"
    by (simp add: parse_run_inv)
  have c: "run_inv st \<and> parse fetch url n levels st = (Inr r, st') \<and> set js \<subseteq> {0, 1} \<and> distinct js \<longrightarrow>
        run_inv (snd (update_loop js levels r st'))"
    using parse_update_run_inv [of st fetch url n levels r st' js] by blast
  note d = docs_loop_run_inv [OF init_run_inv, of fetch ds]
  from d have d1: "\<forall>L1 L2. L1 \<noteq> L2 \<longrightarrow>
         level_words (snd (docs_loop fetch ds init_state)) L1 \<inter>
         level_words (snd (docs_loop fetch ds init_state)) L2 = {}"
    and d2: "\<forall>L. level_words (snd (docs_loop fetch ds init_state)) L \<subseteq>
            all_words (snd (docs_loop fetch ds init_state))"
    unfolding run_inv_def by blast+
  have f: "all_words fin = (\<Union>L \<in> set all_levels. level_words fin L)
        \<and> (\<forall>w \<in> all_words fin. \<exists>!L. L \<in> set all_levels \<and> w \<in> level_words fin L)
        \<and> (\<forall>L \<in> set all_levels. raw_file iter fin L \<in> set (files fin))
        \<and> (iteration_order iter \<longrightarrow>
             (\<forall>w \<in> all_words fin. \<exists>!L. L \<in> set all_levels \<and> w \<in> set (iter (level_words fin L))))
        \<and> (iteration_order iter \<longrightarrow>
             (\<forall>w \<in> all_words fin. \<exists>!L. L \<in> set all_levels \<and>
                (\<exists>c. \<lparr>sink_name = L @ ascii ''_all_raw.csv'', sink_closed = True, sink_written = [c]\<rparr>
                        \<in> set (files fin) \<and> w \<in> set (split 10 c)))
             \<and> (\<forall>L c. \<lparr>sink_name = L @ ascii ''_all_raw.csv'', sink_closed = True, sink_written = [c]\<rparr>
                        \<in> set (files fin) \<longrightarrow>
                    L \<in> set all_levels \<and> c = join [10] (iter (level_words fin L)) \<and> distinct (split 10 c)
                    \<and> (level_words fin L \<noteq> {} \<longrightarrow> set (split 10 c) = level_words fin L)))
        \<and> last (console fin) =
            ascii ''Total: '' @ str_nat (\<Sum>L\<leftarrow>all_levels. card (level_words fin L)) @ ascii '' words''"
    if m: "main fetch iter = (None, fin)"
  proof -
    note p = main_partition [OF m]
    from main_run_inv [of fetch iter] m have i: "run_inv fin" by simp
    have u: "\<exists>!L. L \<in> set all_levels \<and> w \<in> level_words fin L" if w: "w \<in> all_words fin" for w
    proof -
      from w p(1) obtain L where L: "L \<in> set all_levels" "w \<in> level_words fin L" by blast
      have "L' = L" if "L' \<in> set all_levels \<and> w \<in> level_words fin L'" for L'
      proof (rule ccontr)
        assume "L' \<noteq> L"
        with i have "level_words fin L' \<inter> level_words fin L = {}" unfolding run_inv_def by blast
        with that L show False by blast
      qed
      with L show ?thesis by blast
    qed
    have v: "iteration_order iter \<longrightarrow>
             (\<forall>w \<in> all_words fin. \<exists>!L. L \<in> set all_levels \<and> w \<in> set (iter (level_words fin L)))"
    proof
      assume "iteration_order iter"
      moreover from i have "finite (level_words fin L)" for L unfolding run_inv_def by blast
      ultimately have "set (iter (level_words fin L)) = level_words fin L" for L
        unfolding iteration_order_def by blast
      with u show "\<forall>w \<in> all_words fin. \<exists>!L. L \<in> set all_levels \<and> w \<in> set (iter (level_words fin L))"
        by simp
    qed
    have c: "iteration_order iter \<longrightarrow>
             (\<forall>w \<in> all_words fin. \<exists>!L. L \<in> set all_levels \<and>
                (\<exists>c. \<lparr>sink_name = L @ ascii ''_all_raw.csv'', sink_closed = True, sink_written = [c]\<rparr>
                        \<in> set (files fin) \<and> w \<in> set (split 10 c)))
             \<and> (\<forall>L c. \<lparr>sink_name = L @ ascii ''_all_raw.csv'', sink_closed = True, sink_written = [c]\<rparr>
                        \<in> set (files fin) \<longrightarrow>
                    L \<in> set all_levels \<and> c = join [10] (iter (level_words fin L)) \<and> distinct (split 10 c)
                    \<and> (level_words fin L \<noteq> {} \<longrightarrow> set (split 10 c) = level_words fin L))"
    proof (intro impI conjI allI ballI)
      assume io: "iteration_order iter"
      note fl = main_file_lines [OF io m]
      from i have fs: "finite (level_words fin L)" for L unfolding run_inv_def by blast
      from io fs have it: "set (iter (level_words fin L)) = level_words fin L" for L
        unfolding iteration_order_def by blast
      {
        fix w assume w: "w \<in> all_words fin"
        have "(L \<in> set all_levels \<and>
                (\<exists>c. \<lparr>sink_name = L @ ascii ''_all_raw.csv'', sink_closed = True, sink_written = [c]\<rparr>
                        \<in> set (files fin) \<and> w \<in> set (split 10 c)))
              \<longleftrightarrow> (L \<in> set all_levels \<and> w \<in> level_words fin L)" for L
          unfolding main_level_file [OF m] using fl(3) [OF w, of L] by auto
        with u [OF w] show "\<exists>!L. L \<in> set all_levels \<and>
                (\<exists>c. \<lparr>sink_name = L @ ascii ''_all_raw.csv'', sink_closed = True, sink_written = [c]\<rparr>
                        \<in> set (files fin) \<and> w \<in> set (split 10 c))"
          by simp
      }
      {
        fix L c
        assume "\<lparr>sink_name = L @ ascii ''_all_raw.csv'', sink_closed = True, sink_written = [c]\<rparr>
                        \<in> set (files fin)"
        then have lc: "L \<in> set all_levels \<and> c = join [10] (iter (level_words fin L))"
          unfolding main_level_file [OF m] .
        from lc show "L \<in> set all_levels" by (rule conjunct1)
        from lc show "c = join [10] (iter (level_words fin L))" by (rule conjunct2)
        from lc fl(1) [of L] show "distinct (split 10 c)" by simp
        assume "level_words fin L \<noteq> {}"
        from fl(2) [OF this] lc show "set (split 10 c) = level_words fin L" by (simp add: it)
      }
    qed
    have f4: "\<forall>L \<in> set all_levels. raw_file iter fin L \<in> set (files fin)"
      using p(4) by (rule ballI)
    have f2: "\<forall>w \<in> all_words fin. \<exists>!L. L \<in> set all_levels \<and> w \<in> level_words fin L"
      using u by (rule ballI)
    have f5: "last (console fin) =
            ascii ''Total: '' @ str_nat (\<Sum>L\<leftarrow>all_levels. card (level_words fin L)) @ ascii '' words''"
      using p(3) unfolding p(2) .
    from p(1) f2 f4 v c f5 show ?thesis by (intro conjI)
  qed
  have g: "main fetch iter = (None, fin) \<longrightarrow>
        all_words fin = (\<Union>L \<in> set all_levels. level_words fin L)
        \<and> (\<forall>w \<in> all_words fin. \<exists>!L. L \<in> set all_levels \<and> w \<in> level_words fin L)
        \<and> (\<forall>L \<in> set all_levels. raw_file iter fin L \<in> set (files fin))
        \<and> (iteration_order iter \<longrightarrow>
             (\<forall>w \<in> all_words fin. \<exists>!L. L \<in> set all_levels \<and> w \<in> set (iter (level_words fin L))))
        \<and> (iteration_order iter \<longrightarrow>
             (\<forall>w \<in> all_words fin. \<exists>!L. L \<in> set all_levels \<and>
                (\<exists>c. \<lparr>sink_name = L @ ascii ''_all_raw.csv'', sink_closed = True, sink_written = [c]\<rparr>
                        \<in> set (files fin) \<and> w \<in> set (split 10 c)))
             \<and> (\<forall>L c. \<lparr>sink_name = L @ ascii ''_all_raw.csv'', sink_closed = True, sink_written = [c]\<rparr>
                        \<in> set (files fin) \<longrightarrow>
                    L \<in> set all_levels \<and> c = join [10] (iter (level_words fin L)) \<and> distinct (split 10 c)
                    \<and> (level_words fin L \<noteq> {} \<longrightarrow> set (split 10 c) = level_words fin L)))
        \<and> last (console fin) =
            ascii ''Total: '' @ str_nat (\<Sum>L\<leftarrow>all_levels. card (level_words fin L)) @ ascii '' words''"
    using f by (rule impI)
  from init_run_inv a b c d d1 d2 main_run_inv [of fetch iter] g show ?thesis by (intro conjI)
qed

theorem levels_partition_vocabulary_witness:
  "run_inv init_state
   \<and> (\<exists>r st'. parse (\<lambda>u. Some soup1) [] 8 [ascii ''A1'', ascii ''A2''] init_state = (Inr r, st')
        \<and> set [0, 1] \<subseteq> {0, 1 :: nat} \<and> distinct [0, 1 :: nat]
        \<and> run_inv (snd (update_loop [0, 1] [ascii ''A1'', ascii ''A2''] r st')))
   \<and> iteration_order sorted_list_of_set
   \<and> (\<exists>fin. main (\<lambda>u. Some soup1) sorted_list_of_set = (None, fin)
        \<and> all_words fin = (\<Union>L \<in> set all_levels. level_words fin L)
        \<and> level_words fin (ascii ''A1'') = {ascii ''hola'', ascii ''sol''}
        \<and> level_words fin (ascii ''A2'') = {ascii ''perro''}
        \<and> (\<forall>w \<in> all_words fin. \<exists>!L. L \<in> set all_levels \<and> w \<in> set (sorted_list_of_set (level_words fin L)))
        \<and> (\<forall>w \<in> all_words fin. \<exists>!L. L \<in> set all_levels \<and>
                (\<exists>c. \<lparr>sink_name = L @ ascii ''_all_raw.csv'', sink_closed = True, sink_written = [c]\<rparr>
                        \<in> set (files fin) \<and> w \<in> set (split 10 c)))
        \<and> \<lparr>sink_name = ascii ''A1'' @ ascii ''_all_raw.csv'', sink_closed = True,
             sink_written = [join [10] (sorted_list_of_set {ascii ''hola'', ascii ''sol''})]\<rparr> \<in> set (files fin)
        \<and> distinct (split 10 (join [10] (sorted_list_of_set {ascii ''hola'', ascii ''sol''})))
        \<and> set (split 10 (join [10] (sorted_list_of_set {ascii ''hola'', ascii ''sol''}))) =
             {ascii ''hola'', ascii ''sol''}
        \<and> last (console fin) =
            ascii ''Total: '' @ str_nat (\<Sum>L\<leftarrow>all_levels. card (level_words fin L)) @ ascii '' words'')"
proof -
  have "2 \<le> length [ascii ''A1'', ascii ''A2'']" by simp
  from parse_completes [OF soup1_complete this, of "[]" 8 init_state]
  obtain r st' where p: "parse (\<lambda>u. Some soup1) [] 8 [ascii ''A1'', ascii ''A2''] init_state = (Inr r, st')"
    by blast
  from soup1_main [of sorted_list_of_set] obtain fin where
    m: "main (\<lambda>u. Some soup1) sorted_list_of_set = (None, fin)" by blast
  have s: "set [0, 1] \<subseteq> {0, 1 :: nat}" and ds: "distinct [0, 1 :: nat]" by simp_all
  note t = levels_partition_vocabulary [where st = init_state and fetch = "\<lambda>u. Some soup1"
      and url = "[]" and n = 8 and levels = "[ascii ''A1'', ascii ''A2'']" and r = r and st' = st'
      and js = "[0, 1]" and ds = "[]" and iter = sorted_list_of_set and fin = fin
      and vs = "[]" and soup = soup1 and ?h1.0 = 0]
  from t have i: "run_inv init_state" by (rule conjunct1)
  note t4 = t [THEN conjunct2, THEN conjunct2, THEN conjunct2, THEN conjunct1]
  from t4 i p s ds have u: "run_inv (snd (update_loop [0, 1] [ascii ''A1'', ascii ''A2''] r st'))"
    by blast
  note t9 = t [THEN conjunct2, THEN conjunct2, THEN conjunct2, THEN conjunct2,
      THEN conjunct2, THEN conjunct2, THEN conjunct2, THEN conjunct2]
  from t9 m have f: "all_words fin = (\<Union>L \<in> set all_levels. level_words fin L)
        \<and> (\<forall>w \<in> all_words fin. \<exists>!L. L \<in> set all_levels \<and> w \<in> level_words fin L)
        \<and> (\<forall>L \<in> set all_levels. raw_file sorted_list_of_set fin L \<in> set (files fin))
        \<and> (iteration_order sorted_list_of_set \<longrightarrow>
             (\<forall>w \<in> all_words fin. \<exists>!L. L \<in> set all_levels \<and> w \<in> set (sorted_list_of_set (level_words fin L))))
        \<and> (iteration_order sorted_list_of_set \<longrightarrow>
             (\<forall>w \<in> all_words fin. \<exists>!L. L \<in> set all_levels \<and>
                (\<exists>c. \<lparr>sink_name = L @ ascii ''_all_raw.csv'', sink_closed = True, sink_written = [c]\<rparr>
                        \<in> set (files fin) \<and> w \<in> set (split 10 c)))
             \<and> (\<forall>L c. \<lparr>sink_name = L @ ascii ''_all_raw.csv'', sink_closed = True, sink_written = [c]\<rparr>
                        \<in> set (files fin) \<longrightarrow>
                    L \<in> set all_levels \<and> c = join [10] (sorted_list_of_set (level_words fin L)) \<and> distinct (split 10 c)
                    \<and> (level_words fin L \<noteq> {} \<longrightarrow> set (split 10 c) = level_words fin L)))
        \<and> last (console fin) =
            ascii ''Total: '' @ str_nat (\<Sum>L\<leftarrow>all_levels. card (level_words fin L)) @ ascii '' words''"
    by (rule mp)
  from f have f1: "all_words fin = (\<Union>L \<in> set all_levels. level_words fin L)" by (rule conjunct1)
  from f iteration_order_sorted
  have f2: "\<forall>w \<in> all_words fin. \<exists>!L. L \<in> set all_levels \<and> w \<in> set (sorted_list_of_set (level_words fin L))"
    by blast
  from f have f3: "last (console fin) =
            ascii ''Total: '' @ str_nat (\<Sum>L\<leftarrow>all_levels. card (level_words fin L)) @ ascii '' words''"
    by blast
  note lw = soup1_levels [OF m]
  from f [THEN conjunct2, THEN conjunct2, THEN conjunct2, THEN conjunct2, THEN conjunct1]
    iteration_order_sorted
  have g: "(\<forall>w \<in> all_words fin. \<exists>!L. L \<in> set all_levels \<and>
                (\<exists>c. \<lparr>sink_name = L @ ascii ''_all_raw.csv'', sink_closed = True, sink_written = [c]\<rparr>
                        \<in> set (files fin) \<and> w \<in> set (split 10 c)))
             \<and> (\<forall>L c. \<lparr>sink_name = L @ ascii ''_all_raw.csv'', sink_closed = True, sink_written = [c]\<rparr>
                        \<in> set (files fin) \<longrightarrow>
                    L \<in> set all_levels \<and> c = join [10] (sorted_list_of_set (level_words fin L)) \<and> distinct (split 10 c)
                    \<and> (level_words fin L \<noteq> {} \<longrightarrow> set (split 10 c) = level_words fin L))"
    by (rule mp)
  note g1 = g [THEN conjunct1]
  from f [THEN conjunct2, THEN conjunct2, THEN conjunct1] A1_level
  have "raw_file sorted_list_of_set fin (ascii ''A1'') \<in> set (files fin)" by (rule bspec)
  then have g2: "\<lparr>sink_name = ascii ''A1'' @ ascii ''_all_raw.csv'', sink_closed = True,
             sink_written = [join [10] (sorted_list_of_set {ascii ''hola'', ascii ''sol''})]\<rparr> \<in> set (files fin)"
    unfolding raw_file_def lw .
  from g [THEN conjunct2, THEN spec, THEN spec, THEN mp, OF g2]
  have g3: "distinct (split 10 (join [10] (sorted_list_of_set {ascii ''hola'', ascii ''sol''})))"
    and "level_words fin (ascii ''A1'') \<noteq> {} \<longrightarrow>
           set (split 10 (join [10] (sorted_list_of_set {ascii ''hola'', ascii ''sol''}))) =
             level_words fin (ascii ''A1'')"
    by blast+
  then have g4: "set (split 10 (join [10] (sorted_list_of_set {ascii ''hola'', ascii ''sol''}))) =
             {ascii ''hola'', ascii ''sol''}"
    unfolding lw by simp
  from p s ds u have a: "\<exists>r st'. parse (\<lambda>u. Some soup1) [] 8 [ascii ''A1'', ascii ''A2''] init_state = (Inr r, st')
        \<and> set [0, 1] \<subseteq> {0, 1 :: nat} \<and> distinct [0, 1 :: nat]
        \<and> run_inv (snd (update_loop [0, 1] [ascii ''A1'', ascii ''A2''] r st'))"
    by (intro exI conjI)
  from m f1 lw f2 g1 g2 g3 g4 f3
  have b: "\<exists>fin. main (\<lambda>u. Some soup1) sorted_list_of_set = (None, fin)
        \<and> all_words fin = (\<Union>L \<in> set all_levels. level_words fin L)
        \<and> level_words fin (ascii ''A1'') = {ascii ''hola'', ascii ''sol''}
        \<and> level_words fin (ascii ''A2'') = {ascii ''perro''}
        \<and> (\<forall>w \<in> all_words fin. \<exists>!L. L \<in> set all_levels \<and> w \<in> set (sorted_list_of_set (level_words fin L)))
        \<and> (\<forall>w \<in> all_words fin. \<exists>!L. L \<in> set all_levels \<and>
                (\<exists>c. \<lparr>sink_name = L @ ascii ''_all_raw.csv'', sink_closed = True, sink_written = [c]\<rparr>
                        \<in> set (files fin) \<and> w \<in> set (split 10 c)))
        \<and> \<lparr>sink_name = ascii ''A1'' @ ascii ''_all_raw.csv'', sink_closed = True,
             sink_written = [join [10] (sorted_list_of_set {ascii ''hola'', ascii ''sol''})]\<rparr> \<in> set (files fin)
        \<and> distinct (split 10 (join [10] (sorted_list_of_set {ascii ''hola'', ascii ''sol''})))
        \<and> set (split 10 (join [10] (sorted_list_of_set {ascii ''hola'', ascii ''sol''}))) =
             {ascii ''hola'', ascii ''sol''}
        \<and> last (console fin) =
            ascii ''Total: '' @ str_nat (\<Sum>L\<leftarrow>all_levels. card (level_words fin L)) @ ascii '' words''"
    by (intro exI conjI)
  from i a iteration_order_sorted b show ?thesis by (intro conjI)
qed

end
